theory Spec2Isabelle
  imports Complex_Main "HOL-Library.Log_Nat"
begin

section \<open>Python numbers\<close>

text \<open>
  The code computes with Python \<open>int\<close> (unbounded, modelled as \<^typ>\<open>int\<close>) and Python
  \<open>float\<close> (IEEE 754 binary64). A finite float is modelled by the rational number it
  denotes; \<open>-0.0\<close> and \<open>0.0\<close> compare equal in Python and are identified here. Every
  arithmetic operation rounds its exact result to the nearest binary64 value, ties to
  even, and overflows to an infinity.
\<close>

datatype pyfloat = Fin rat | PInf | NInf | NaN

datatype pyerror = ZeroDivisionError | OverflowError

text \<open>Round half to even, to an integer.\<close>

definition rne :: "rat \<Rightarrow> int" where
  "rne y = (let f = \<lfloor>y\<rfloor>; r = y - of_int f in
     if r < 1 / 2 then f else if 1 / 2 < r then f + 1 else if even f then f else f + 1)"

text \<open>The binary exponent of a positive rational: \<open>2 ^ ilog2 x \<le> x < 2 ^ (ilog2 x + 1)\<close>.\<close>

definition ilog2 :: "rat \<Rightarrow> int" where
  "ilog2 x = (if 1 \<le> x then bitlen \<lfloor>x\<rfloor> - 1 else - bitlen (\<lceil>1 / x\<rceil> - 1))"

text \<open>
  The spacing of binary64 values around \<open>x\<close>: 53 significant bits, and a smallest
  exponent of \<open>-1022\<close> (below it the values are subnormal, spaced \<open>2 ^ -1074\<close> apart).
\<close>

definition quantum :: "rat \<Rightarrow> rat" where
  "quantum x = 2 powi (max (ilog2 \<bar>x\<bar>) (- 1022) - 52)"

definition round_fin :: "rat \<Rightarrow> rat" where
  "round_fin x = (if x = 0 then 0 else sgn x * of_int (rne (\<bar>x\<bar> / quantum x)) * quantum x)"

definition round_double :: "rat \<Rightarrow> pyfloat" where
  "round_double x = (let y = round_fin x in
     if 2 ^ 1024 \<le> y then PInf else if y \<le> - (2 ^ 1024) then NInf else Fin y)"

text \<open>A rational that is a binary64 value; a well-formed float.\<close>

definition is_double :: "rat \<Rightarrow> bool" where
  "is_double x \<longleftrightarrow> round_fin x = x \<and> \<bar>x\<bar> < 2 ^ 1024"

fun valid_float :: "pyfloat \<Rightarrow> bool" where
  "valid_float (Fin x) = is_double x"
| "valid_float _ = True"

fun is_finite :: "pyfloat \<Rightarrow> bool" where
  "is_finite (Fin x) = True"
| "is_finite _ = False"

subsection \<open>Float arithmetic\<close>

fun fneg :: "pyfloat \<Rightarrow> pyfloat" where
  "fneg (Fin x) = Fin (- x)"
| "fneg PInf = NInf"
| "fneg NInf = PInf"
| "fneg NaN = NaN"

fun fadd :: "pyfloat \<Rightarrow> pyfloat \<Rightarrow> pyfloat" where
  "fadd (Fin x) (Fin y) = round_double (x + y)"
| "fadd NaN _ = NaN"
| "fadd _ NaN = NaN"
| "fadd PInf NInf = NaN"
| "fadd NInf PInf = NaN"
| "fadd PInf _ = PInf"
| "fadd NInf _ = NInf"
| "fadd _ PInf = PInf"
| "fadd _ NInf = NInf"

definition fsub :: "pyfloat \<Rightarrow> pyfloat \<Rightarrow> pyfloat" where
  "fsub a b = fadd a (fneg b)"

text \<open>The sign of a float that is not NaN, as \<open>-1\<close>, \<open>0\<close> or \<open>1\<close>.\<close>

fun fsign :: "pyfloat \<Rightarrow> int" where
  "fsign (Fin x) = (if x < 0 then - 1 else if x = 0 then 0 else 1)"
| "fsign PInf = 1"
| "fsign NInf = - 1"
| "fsign NaN = 0"

definition signed_inf :: "int \<Rightarrow> pyfloat" where
  "signed_inf s = (if s = 0 then NaN else if 0 < s then PInf else NInf)"

fun fmul :: "pyfloat \<Rightarrow> pyfloat \<Rightarrow> pyfloat" where
  "fmul (Fin x) (Fin y) = round_double (x * y)"
| "fmul NaN _ = NaN"
| "fmul _ NaN = NaN"
| "fmul a b = signed_inf (fsign a * fsign b)"

text \<open>
  Python's float division raises \<open>ZeroDivisionError\<close> whenever the divisor is zero,
  whatever the dividend.
\<close>

fun fdiv :: "pyfloat \<Rightarrow> pyfloat \<Rightarrow> pyerror + pyfloat" where
  "fdiv a (Fin y) =
     (if y = 0 then Inl ZeroDivisionError
      else case a of
        Fin x \<Rightarrow> Inr (round_double (x / y))
      | NaN \<Rightarrow> Inr NaN
      | _ \<Rightarrow> Inr (signed_inf (fsign a * fsign (Fin y))))"
| "fdiv NaN _ = Inr NaN"
| "fdiv _ NaN = Inr NaN"
| "fdiv (Fin x) _ = Inr (Fin 0)"
| "fdiv _ _ = Inr NaN"

subsection \<open>Float comparisons\<close>

text \<open>Every comparison with NaN is false.\<close>

fun fle :: "pyfloat \<Rightarrow> pyfloat \<Rightarrow> bool" where
  "fle NaN _ = False"
| "fle _ NaN = False"
| "fle NInf _ = True"
| "fle _ PInf = True"
| "fle (Fin x) (Fin y) = (x \<le> y)"
| "fle _ _ = False"

fun flt :: "pyfloat \<Rightarrow> pyfloat \<Rightarrow> bool" where
  "flt NaN _ = False"
| "flt _ NaN = False"
| "flt (Fin x) (Fin y) = (x < y)"
| "flt PInf _ = False"
| "flt _ NInf = False"
| "flt _ _ = True"

definition fge :: "pyfloat \<Rightarrow> pyfloat \<Rightarrow> bool" where
  "fge a b = fle b a"

definition fgt :: "pyfloat \<Rightarrow> pyfloat \<Rightarrow> bool" where
  "fgt a b = flt b a"

subsection \<open>Conversion and rounding\<close>

text \<open>
  An \<open>int\<close> operand of a float operation is converted to the nearest float; the
  conversion raises \<open>OverflowError\<close> when the integer is too large.
\<close>

definition int_to_float :: "int \<Rightarrow> pyerror + pyfloat" where
  "int_to_float i = (case round_double (of_int i) of
     Fin y \<Rightarrow> Inr (Fin y) | _ \<Rightarrow> Inl OverflowError)"

text \<open>
  \<open>round(x, 2)\<close> on a float: the exact value of \<open>x\<close> is rounded to two decimal places,
  half to even, and the decimal result is converted back to the nearest float.
  Infinities and NaN round to themselves.
\<close>

fun float_round2 :: "pyfloat \<Rightarrow> pyfloat" where
  "float_round2 (Fin x) = round_double (of_int (rne (x * 100)) / 100)"
| "float_round2 a = a"

text \<open>\<open>int * float\<close> and \<open>float * int\<close>, \<open>float / int\<close>.\<close>

definition int_mul_float :: "int \<Rightarrow> pyfloat \<Rightarrow> pyerror + pyfloat" where
  "int_mul_float i a = (case int_to_float i of
     Inl e \<Rightarrow> Inl e | Inr b \<Rightarrow> Inr (fmul b a))"

definition float_mul_int :: "pyfloat \<Rightarrow> int \<Rightarrow> pyerror + pyfloat" where
  "float_mul_int a i = (case int_to_float i of
     Inl e \<Rightarrow> Inl e | Inr b \<Rightarrow> Inr (fmul a b))"

definition float_div_int :: "pyfloat \<Rightarrow> int \<Rightarrow> pyerror + pyfloat" where
  "float_div_int a i = (case int_to_float i of
     Inl e \<Rightarrow> Inl e | Inr b \<Rightarrow> fdiv a b)"

section \<open>utils.py: the break-even solver\<close>

text \<open>
  The body of the \<open>try\<close> block of \<open>calculate_shares_to_buy\<close>: the numerator, the
  denominator and their quotient. \<open>q1\<close> is the \<open>Integer\<close> column \<open>quantity\<close>, the
  prices are floats.
\<close>

definition shares_numerator :: "int \<Rightarrow> pyfloat \<Rightarrow> pyfloat \<Rightarrow> pyerror + pyfloat" where
  "shares_numerator q1 p1 p_target = int_mul_float q1 (fsub p1 p_target)"

definition shares_denominator :: "pyfloat \<Rightarrow> pyfloat \<Rightarrow> pyfloat" where
  "shares_denominator p2 p_target = fsub p_target p2"

definition shares_formula :: "int \<Rightarrow> pyfloat \<Rightarrow> pyfloat \<Rightarrow> pyfloat \<Rightarrow> pyerror + pyfloat" where
  "shares_formula q1 p1 p2 p_target =
     (case shares_numerator q1 p1 p_target of
        Inl e \<Rightarrow> Inl e
      | Inr numerator \<Rightarrow> fdiv numerator (shares_denominator p2 p_target))"

text \<open>
  \<open>calculate_shares_to_buy\<close>: \<open>None\<close> is Python's \<open>None\<close>; an exception raised in the
  \<open>try\<close> block is caught and turned into \<open>None\<close>.
\<close>

definition calculate_shares_to_buy :: "int \<Rightarrow> pyfloat \<Rightarrow> pyfloat \<Rightarrow> pyfloat \<Rightarrow> pyfloat option" where
  "calculate_shares_to_buy q1 p1 p2 p_target =
     (if fle p_target p2 then None
      else if fge p_target p1 then None
      else case shares_formula q1 p1 p2 p_target of
             Inl e \<Rightarrow> None
           | Inr q2 \<Rightarrow> Some q2)"

text \<open>
  The steps of one call of \<open>calculate_shares_to_buy\<close> in the order of execution: the
  outcome of each of the two checks that is evaluated, and the operands of the division
  when it is evaluated. The second component is the value returned.
\<close>

datatype step = Check_target_le_p2 bool | Check_target_ge_p1 bool | Divide pyfloat pyfloat

definition calculate_shares_to_buy_steps ::
  "int \<Rightarrow> pyfloat \<Rightarrow> pyfloat \<Rightarrow> pyfloat \<Rightarrow> step list \<times> pyfloat option" where
  "calculate_shares_to_buy_steps q1 p1 p2 p_target =
     (if fle p_target p2 then ([Check_target_le_p2 True], None)
      else if fge p_target p1 then
        ([Check_target_le_p2 False, Check_target_ge_p1 True], None)
      else case shares_numerator q1 p1 p_target of
             Inl e \<Rightarrow> ([Check_target_le_p2 False, Check_target_ge_p1 False], None)
           | Inr numerator \<Rightarrow>
               ([Check_target_le_p2 False, Check_target_ge_p1 False,
                 Divide numerator (shares_denominator p2 p_target)],
                case fdiv numerator (shares_denominator p2 p_target) of
                  Inl e \<Rightarrow> None
                | Inr q2 \<Rightarrow> Some q2))"

section \<open>utils.py: the portfolio aggregator\<close>

text \<open>
  A number is an \<open>int\<close> or a \<open>float\<close>: the running totals start as the \<open>int\<close> zero
  and become floats with the first position added. Binary operations on an \<open>int\<close> and
  a \<open>float\<close> convert the \<open>int\<close> first.
\<close>

datatype pynum = PInt int | PFloat pyfloat

datatype pyvalue = Num pynum | Str string

fun num_add :: "pynum \<Rightarrow> pynum \<Rightarrow> pyerror + pynum" where
  "num_add (PInt a) (PInt b) = Inr (PInt (a + b))"
| "num_add (PInt a) (PFloat y) =
     (case int_to_float a of Inl e \<Rightarrow> Inl e | Inr x \<Rightarrow> Inr (PFloat (fadd x y)))"
| "num_add (PFloat x) (PInt b) =
     (case int_to_float b of Inl e \<Rightarrow> Inl e | Inr y \<Rightarrow> Inr (PFloat (fadd x y)))"
| "num_add (PFloat x) (PFloat y) = Inr (PFloat (fadd x y))"

fun num_sub :: "pynum \<Rightarrow> pynum \<Rightarrow> pyerror + pynum" where
  "num_sub (PInt a) (PInt b) = Inr (PInt (a - b))"
| "num_sub (PInt a) (PFloat y) =
     (case int_to_float a of Inl e \<Rightarrow> Inl e | Inr x \<Rightarrow> Inr (PFloat (fsub x y)))"
| "num_sub (PFloat x) (PInt b) =
     (case int_to_float b of Inl e \<Rightarrow> Inl e | Inr y \<Rightarrow> Inr (PFloat (fsub x y)))"
| "num_sub (PFloat x) (PFloat y) = Inr (PFloat (fsub x y))"

text \<open>\<open>round(x, 2)\<close>: an \<open>int\<close> is returned unchanged.\<close>

fun round2 :: "pynum \<Rightarrow> pynum" where
  "round2 (PInt a) = PInt a"
| "round2 (PFloat x) = PFloat (float_round2 x)"

text \<open>A row of the \<open>Stock\<close> table (app.py): \<open>Integer\<close> and \<open>Float\<close> columns.\<close>

record stock =
  stock_id :: int
  stock_name :: string
  quantity :: int
  buy_price :: pyfloat
  current_price :: pyfloat
  user_id :: int

text \<open>The dictionary built for one position, and the one iteration of the loop.\<close>

definition stock_data :: "stock \<Rightarrow> pyfloat \<Rightarrow> (string \<rightharpoonup> pyvalue)" where
  "stock_data s profit_loss =
     [''id'' \<mapsto> Num (PInt (stock_id s)),
      ''stock_name'' \<mapsto> Str (stock_name s),
      ''quantity'' \<mapsto> Num (PInt (quantity s)),
      ''buy_price'' \<mapsto> Num (round2 (PFloat (buy_price s))),
      ''current_price'' \<mapsto> Num (round2 (PFloat (current_price s))),
      ''profit_loss'' \<mapsto> Num (round2 (PFloat profit_loss))]"

type_synonym loop_state = "(string \<rightharpoonup> pyvalue) list \<times> pynum \<times> pynum"

definition portfolio_step :: "loop_state \<Rightarrow> stock \<Rightarrow> pyerror + loop_state" where
  "portfolio_step st s =
     (case st of (portfolio, total_investment, total_current_value) \<Rightarrow>
      case float_mul_int (fsub (current_price s) (buy_price s)) (quantity s) of
        Inl e \<Rightarrow> Inl e
      | Inr profit_loss \<Rightarrow>
      case int_mul_float (quantity s) (buy_price s) of
        Inl e \<Rightarrow> Inl e
      | Inr investment \<Rightarrow>
      case num_add total_investment (PFloat investment) of
        Inl e \<Rightarrow> Inl e
      | Inr total_investment' \<Rightarrow>
      case int_mul_float (quantity s) (current_price s) of
        Inl e \<Rightarrow> Inl e
      | Inr current_value \<Rightarrow>
      case num_add total_current_value (PFloat current_value) of
        Inl e \<Rightarrow> Inl e
      | Inr total_current_value' \<Rightarrow>
          Inr (portfolio @ [stock_data s profit_loss], total_investment', total_current_value'))"

fun portfolio_loop :: "stock list \<Rightarrow> loop_state \<Rightarrow> pyerror + loop_state" where
  "portfolio_loop [] st = Inr st"
| "portfolio_loop (s # all_stocks) st =
     (case portfolio_step st s of
        Inl e \<Rightarrow> Inl e
      | Inr st' \<Rightarrow> portfolio_loop all_stocks st')"

definition process_portfolio_data ::
  "stock list \<Rightarrow> pyerror + ((string \<rightharpoonup> pyvalue) list \<times> (string \<rightharpoonup> pynum))" where
  "process_portfolio_data all_stocks =
     (case portfolio_loop all_stocks ([], PInt 0, PInt 0) of
        Inl e \<Rightarrow> Inl e
      | Inr (portfolio, total_investment, total_current_value) \<Rightarrow>
      case num_sub total_current_value total_investment of
        Inl e \<Rightarrow> Inl e
      | Inr total_profit_loss \<Rightarrow>
          Inr (portfolio,
               [''total_investment'' \<mapsto> round2 total_investment,
                ''total_current_value'' \<mapsto> round2 total_current_value,
                ''total_profit_loss'' \<mapsto> round2 total_profit_loss]))"

text \<open>
  The sum of \<open>quantity * price\<close> over the positions as the specification writes it,
  in float arithmetic: each quantity is converted to the nearest float, and the products
  are added in list order starting from \<open>0.0\<close>; \<open>price\<close> selects the price column.
\<close>

definition sum_of_products :: "(stock \<Rightarrow> pyfloat) \<Rightarrow> stock list \<Rightarrow> pyfloat" where
  "sum_of_products price all_stocks =
     foldl fadd (Fin 0)
       (map (\<lambda>s. fmul (Fin (round_fin (of_int (quantity s)))) (price s)) all_stocks)"

section \<open>app.py: a purchase of a stock already held\<close>

text \<open>
  The branch \<open>if existing_stock:\<close> of the route \<open>portfolio\<close>. The form fields are
  parsed with \<open>int\<close> and \<open>float\<close>; an exception leaves the row as it was.
\<close>

definition update_existing_stock :: "stock \<Rightarrow> int \<Rightarrow> pyfloat \<Rightarrow> pyfloat \<Rightarrow> pyerror + stock" where
  "update_existing_stock existing_stock form_quantity form_buy_price form_current_price =
     (case int_mul_float (quantity existing_stock) (buy_price existing_stock) of
        Inl e \<Rightarrow> Inl e
      | Inr old_total_cost \<Rightarrow>
      case int_mul_float form_quantity form_buy_price of
        Inl e \<Rightarrow> Inl e
      | Inr new_purchase_cost \<Rightarrow>
      let total_quantity = quantity existing_stock + form_quantity in
      case float_div_int (fadd old_total_cost new_purchase_cost) total_quantity of
        Inl e \<Rightarrow> Inl e
      | Inr new_average_price \<Rightarrow>
          Inr (existing_stock\<lparr>quantity := total_quantity,
                 buy_price := new_average_price,
                 current_price := form_current_price\<rparr>))"

section \<open>Properties of rounding\<close>

subsection \<open>The binary exponent\<close>

lemma ilog2_bounds:
  assumes "0 < x"
  shows "2 powi (ilog2 x) \<le> x \<and> x < 2 powi (ilog2 x + 1)"
proof (cases "1 \<le> x")
  case True
  define n where "n = \<lfloor>x\<rfloor>"
  have n: "1 \<le> n" using True by (simp add: n_def le_floor_iff)
  then have b: "1 \<le> bitlen n" using bitlen_bounds[of n] 
    by (smt (verit) bitlen_nonneg nat_0 power_0 nat_int zero_less_one)
  have lo: "2 ^ nat (bitlen n - 1) \<le> n" and hi: "n < 2 ^ nat (bitlen n)"
    using bitlen_bounds[of n] n by auto
  have e: "ilog2 x = bitlen n - 1" using True by (simp add: ilog2_def n_def)
  have "(2::rat) powi (bitlen n - 1) = of_int (2 ^ nat (bitlen n - 1))"
    using b by (simp add: power_int_def)
  also have "\<dots> \<le> of_int n" using lo by (simp only: of_int_le_iff)
  also have "\<dots> \<le> x" by (simp add: n_def)
  finally have 1: "2 powi (ilog2 x) \<le> x" by (simp add: e)
  have "n + 1 \<le> 2 ^ nat (bitlen n)" using hi by simp
  then have "(of_int (n + 1) :: rat) \<le> of_int (2 ^ nat (bitlen n))" by (simp only: of_int_le_iff)
  moreover have "x < of_int (n + 1)" using floor_correct[of x] by (simp add: n_def)
  moreover have "(of_int (2 ^ nat (bitlen n)) :: rat) = 2 powi (bitlen n)"
    using b by (simp add: power_int_def)
  ultimately have 2: "x < 2 powi (ilog2 x + 1)" by (simp add: e)
  from 1 2 show ?thesis by simp
next
  case False
  define c where "c = \<lceil>1 / x\<rceil>"
  have y: "1 < 1 / x" using False assms by simp
  have c2: "2 \<le> c" using y by (simp add: c_def le_ceiling_iff)
  then have b: "1 \<le> bitlen (c - 1)" using bitlen_bounds[of "c - 1"]
    by (smt (verit) bitlen_nonneg nat_0 power_0 nat_int zero_less_one)
  have lo: "2 ^ nat (bitlen (c - 1) - 1) \<le> c - 1" and hi: "c - 1 < 2 ^ nat (bitlen (c - 1))"
    using bitlen_bounds[of "c - 1"] c2 by auto
  have e: "ilog2 x = - bitlen (c - 1)" using False by (simp add: ilog2_def c_def)
  have below: "of_int (c - 1) < 1 / x" using ceiling_correct[of "1 / x"] by (simp add: c_def)
  have cle: "c \<le> 2 ^ nat (bitlen (c - 1))" using hi by simp
  have "1 / x \<le> of_int c" by (simp add: c_def)
  also have "\<dots> \<le> of_int (2 ^ nat (bitlen (c - 1)))" using cle by (simp only: of_int_le_iff)
  also have "\<dots> = 2 powi (bitlen (c - 1))" using b by (simp add: power_int_def)
  finally have "1 / x \<le> 2 powi (bitlen (c - 1))" .
  then have 1: "2 powi (ilog2 x) \<le> x" using assms
    by (simp add: e power_int_minus field_simps)
  have "(2::rat) powi (bitlen (c - 1) - 1) = of_int (2 ^ nat (bitlen (c - 1) - 1))"
    using b by (simp add: power_int_def)
  also have "\<dots> \<le> of_int (c - 1)" using lo by (simp only: of_int_le_iff)
  also have "\<dots> < 1 / x" by (fact below)
  finally have "2 powi (bitlen (c - 1) - 1) < 1 / x" .
  moreover have "(0::rat) < 2 powi (bitlen (c - 1) - 1)" by simp
  ultimately have "x < 1 / 2 powi (bitlen (c - 1) - 1)" using assms
    by (simp add: field_simps)
  moreover have "ilog2 x + 1 = - (bitlen (c - 1) - 1)" by (simp add: e)
  ultimately have 2: "x < 2 powi (ilog2 x + 1)"
    by (simp only: power_int_minus_divide)
  from 1 2 show ?thesis by simp
qed

lemma ilog2_unique:
  assumes "0 < x" "2 powi e \<le> x" "x < 2 powi (e + 1)"
  shows "ilog2 x = e"
proof (rule ccontr)
  assume ne: "ilog2 x \<noteq> e"
  note b = ilog2_bounds[OF assms(1)]
  show False
  proof (cases "ilog2 x < e")
    case True
    then have "(2::rat) powi (ilog2 x + 1) \<le> 2 powi e"
      by (intro power_int_increasing) auto
    with b assms show False by linarith
  next
    case False
    with ne have "e + 1 \<le> ilog2 x" by simp
    then have "(2::rat) powi (e + 1) \<le> 2 powi (ilog2 x)"
      by (intro power_int_increasing) auto
    with b assms show False by linarith
  qed
qed

lemma ilog2_mono:
  assumes "0 < x" "x \<le> y"
  shows "ilog2 x \<le> ilog2 y"
proof (rule ccontr)
  assume "\<not> ilog2 x \<le> ilog2 y"
  then have "ilog2 y + 1 \<le> ilog2 x" by simp
  then have "(2::rat) powi (ilog2 y + 1) \<le> 2 powi (ilog2 x)"
    by (intro power_int_increasing) auto
  moreover have "0 < y" using assms by simp
  ultimately show False
    using ilog2_bounds[OF assms(1)] ilog2_bounds[OF \<open>0 < y\<close>] assms(2) by linarith
qed

subsection \<open>Rounding to an integer\<close>

lemma rne_bounds: "\<bar>of_int (rne y) - y\<bar> \<le> 1 / 2"
  using floor_correct[of y] by (auto simp: rne_def Let_def)

lemma rne_of_int: "rne (of_int n) = n"
  by (simp add: rne_def)

lemma rne_mono:
  assumes "y \<le> z"
  shows "rne y \<le> rne z"
proof (cases "\<lfloor>y\<rfloor> = \<lfloor>z\<rfloor>")
  case True
  then show ?thesis using assms by (auto simp: rne_def Let_def)
next
  case False
  then have "\<lfloor>y\<rfloor> < \<lfloor>z\<rfloor>" using floor_mono[OF assms] by simp
  then have "\<lfloor>y\<rfloor> + 1 \<le> \<lfloor>z\<rfloor>" by simp
  moreover have "rne y \<le> \<lfloor>y\<rfloor> + 1" by (auto simp: rne_def Let_def)
  moreover have "\<lfloor>z\<rfloor> \<le> rne z" by (auto simp: rne_def Let_def)
  ultimately show ?thesis by linarith
qed

lemma rne_ge: "of_int n \<le> y \<Longrightarrow> n \<le> rne y"
  using rne_mono[of "of_int n" y] by (simp add: rne_of_int)

lemma rne_le: "y \<le> of_int n \<Longrightarrow> rne y \<le> n"
  using rne_mono[of y "of_int n"] by (simp add: rne_of_int)

subsection \<open>Rounding to a binary64 value\<close>


lemma quantum_pos: "0 < quantum x"
  by (simp add: quantum_def)

lemma quantum_minus: "quantum (- x) = quantum x"
  by (simp add: quantum_def)

lemma quantum_abs: "quantum \<bar>x\<bar> = quantum x"
  by (simp add: quantum_def)

lemma round_fin_minus: "round_fin (- x) = - round_fin x"
  by (simp add: round_fin_def quantum_minus sgn_minus)

lemma round_fin_pos_eq: "0 < x \<Longrightarrow> round_fin x = of_int (rne (x / quantum x)) * quantum x"
  by (simp add: round_fin_def)

lemma round_fin_zero: "round_fin 0 = 0"
  by (simp add: round_fin_def)

lemma quantum_eq:
  assumes "0 < x" "2 powi e \<le> x" "x < 2 powi (e + 1)"
  shows "quantum x = 2 powi (max e (- 1022) - 52)"
  using ilog2_unique[OF assms] assms(1) by (simp add: quantum_def)

text \<open>The quantum is a power of two no smaller than the subnormal spacing.\<close>

lemma quantum_power:
  "\<exists>j. - 1074 \<le> j \<and> quantum x = 2 powi j"
  by (rule exI[of _ "max (ilog2 \<bar>x\<bar>) (- 1022) - 52"]) (simp add: quantum_def)

lemma quantum_mono:
  assumes "0 < x" "x \<le> y"
  shows "quantum x \<le> quantum y"
proof -
  have "ilog2 \<bar>x\<bar> \<le> ilog2 \<bar>y\<bar>" using ilog2_mono[of x y] assms by simp
  then show ?thesis unfolding quantum_def by (intro power_int_increasing) auto
qed

lemma below_quantum: 
  assumes "0 < x"
  shows "x < quantum x * 2 ^ 53"
proof -
  have "x < 2 powi (ilog2 x + 1)" using ilog2_bounds[OF assms] by simp
  also have "\<dots> \<le> 2 powi (max (ilog2 x) (- 1022) - 52 + 53)"
    by (intro power_int_increasing) auto
  also have "\<dots> = 2 powi (max (ilog2 x) (- 1022) - 52) * 2 powi 53"
    by (subst power_int_add) auto
  finally show ?thesis using assms by (simp add: quantum_def)
qed

lemma round_fin_nonneg: "0 \<le> x \<Longrightarrow> 0 \<le> round_fin x"
proof -
  assume "0 \<le> x"
  then have "0 \<le> rne (\<bar>x\<bar> / quantum x)"
    using rne_ge[of 0 "\<bar>x\<bar> / quantum x"] quantum_pos[of x] by simp
  then show ?thesis using \<open>0 \<le> x\<close> quantum_pos[of x]
    by (simp add: round_fin_def sgn_if)
qed


lemma above_quantum:
  assumes "0 < y" "- 1022 \<le> ilog2 y"
  shows "quantum y * 2 ^ 52 \<le> y"
proof -
  have "quantum y * 2 ^ 52 = 2 powi (ilog2 y - 52) * 2 powi 52"
    using assms by (simp add: quantum_def max_def)
  also have "\<dots> = 2 powi (ilog2 y - 52 + 52)"
    by (subst power_int_add) auto
  also have "\<dots> \<le> y" using ilog2_bounds[OF assms(1)] by simp
  finally show ?thesis .
qed

lemma round_fin_mono_pos:
  assumes "0 < x" "x \<le> y"
  shows "round_fin x \<le> round_fin y"
proof -
  have ypos: "0 < y" using assms by simp
  define jx where "jx = max (ilog2 x) (- 1022) - 52"
  define jy where "jy = max (ilog2 y) (- 1022) - 52"
  have qx: "quantum x = 2 powi jx" using assms(1) by (simp add: quantum_def jx_def)
  have qy: "quantum y = 2 powi jy" using ypos by (simp add: quantum_def jy_def)
  have le: "jx \<le> jy" using ilog2_mono[OF assms] by (simp add: jx_def jy_def)
  show ?thesis
  proof (cases "jx = jy")
    case True
    then have "quantum x = quantum y" by (simp add: qx qy)
    moreover have "x / quantum y \<le> y / quantum y"
      using assms(2) quantum_pos[of y] by (simp add: divide_right_mono)
    ultimately show ?thesis
      using rne_mono[of "x / quantum y" "y / quantum y"] quantum_pos[of y]
      by (simp add: round_fin_pos_eq[OF assms(1)] round_fin_pos_eq[OF ypos])
  next
    case False
    with le have lt: "jx + 1 \<le> jy" by simp
    then have n: "- 1022 \<le> ilog2 y" by (simp add: jx_def jy_def max_def split: if_splits)
    have "x / quantum x \<le> of_int (2 ^ 53)"
      using below_quantum[OF assms(1)] quantum_pos[of x] by (simp add: field_simps)
    then have "rne (x / quantum x) \<le> 2 ^ 53" by (rule rne_le)
    then have "(of_int (rne (x / quantum x)) :: rat) \<le> of_int (2 ^ 53)"
      by (simp only: of_int_le_iff)
    then have "round_fin x \<le> 2 ^ 53 * quantum x"
      using quantum_pos[of x] by (simp add: round_fin_pos_eq[OF assms(1)])
    also have "\<dots> = 2 ^ 52 * 2 powi (jx + 1)"
      by (simp add: qx power_int_add)
    also have "\<dots> \<le> 2 ^ 52 * 2 powi jy"
      using lt by (intro mult_left_mono power_int_increasing) auto
    finally have 1: "round_fin x \<le> 2 ^ 52 * quantum y" by (simp add: qy)
    have "of_int (2 ^ 52) \<le> y / quantum y"
      using above_quantum[OF ypos n] quantum_pos[of y] by (simp add: field_simps)
    then have "2 ^ 52 \<le> rne (y / quantum y)" by (rule rne_ge)
    then have "(of_int (2 ^ 52) :: rat) \<le> of_int (rne (y / quantum y))"
      by (simp only: of_int_le_iff)
    then have 2: "2 ^ 52 * quantum y \<le> round_fin y"
      using quantum_pos[of y] by (simp add: round_fin_pos_eq[OF ypos])
    from 1 2 show ?thesis by linarith
  qed
qed

lemma round_fin_nonpos: "x \<le> 0 \<Longrightarrow> round_fin x \<le> 0"
  using round_fin_nonneg[of "- x"] by (simp add: round_fin_minus)

lemma round_fin_mono:
  assumes "x \<le> y"
  shows "round_fin x \<le> round_fin y"
proof -
  consider "0 < x" | "x \<le> 0" "0 \<le> y" | "y < 0" by linarith
  then show ?thesis
  proof cases
    case 1
    then show ?thesis using assms by (rule round_fin_mono_pos)
  next
    case 2
    then show ?thesis using round_fin_nonpos[of x] round_fin_nonneg[of y] by linarith
  next
    case 3
    then have "round_fin (- y) \<le> round_fin (- x)"
      using assms by (intro round_fin_mono_pos) auto
    then show ?thesis by (simp add: round_fin_minus)
  qed
qed

lemma round_fin_multiple:
  assumes "x = of_int m * quantum x"
  shows "round_fin x = x"
proof -
  have pos: "round_fin z = z" if "0 < z" "z = of_int n * quantum z" for z n
  proof -
    have "z / quantum z = of_int n" using that(2) quantum_pos[of z]
      by (metis nonzero_mult_div_cancel_right less_numeral_extra(3))
    then show ?thesis using that by (simp add: round_fin_pos_eq rne_of_int)
  qed
  consider "0 < x" | "x = 0" | "x < 0" by linarith
  then show ?thesis
  proof cases
    case 1
    then show ?thesis using assms by (rule pos)
  next
    case 2
    then show ?thesis by (simp add: round_fin_zero)
  next
    case 3
    have "- x = of_int (- m) * quantum (- x)" using assms by (simp add: quantum_minus)
    then have "round_fin (- x) = - x" using 3 pos[of "- x" "- m"] by simp
    then show ?thesis by (simp add: round_fin_minus)
  qed
qed

lemma round_fin_grid: "\<exists>m. round_fin x = of_int m * quantum x"
proof -
  define s :: int where "s = (if x < 0 then - 1 else if x = 0 then 0 else 1)"
  have "sgn x = of_int s" by (simp add: s_def sgn_if)
  then have "round_fin x = of_int (s * rne (\<bar>x\<bar> / quantum x)) * quantum x"
    by (simp add: round_fin_def s_def)
  then show ?thesis by blast
qed

lemma is_double_grid: "is_double x \<Longrightarrow> \<exists>m. x = of_int m * quantum x"
  using round_fin_grid[of x] by (simp add: is_double_def)


lemma powi2_less_iff: "(2::rat) powi a < 2 powi b \<longleftrightarrow> a < b"
proof
  assume l: "(2::rat) powi a < 2 powi b"
  show "a < b"
  proof (rule ccontr)
    assume "\<not> a < b"
    then have "(2::rat) powi b \<le> 2 powi a" by (intro power_int_increasing) auto
    with l show False by simp
  qed
next
  assume "a < b"
  then show "(2::rat) powi a < 2 powi b" by (intro power_int_strict_increasing) auto
qed

lemma powi2_le_iff: "(2::rat) powi a \<le> 2 powi b \<longleftrightarrow> a \<le> b"
  using powi2_less_iff[of b a] by (auto simp: not_less[symmetric])

lemma round_fin_scaled_int:
  assumes "0 < m" "m < 2 ^ 53" "- 1074 \<le> k"
  shows "round_fin (of_int m * 2 powi k) = of_int m * 2 powi k"
proof -
  define x :: rat where "x = of_int m * 2 powi k"
  have xpos: "0 < x" using assms(1) by (simp add: x_def)
  define j where "j = max (ilog2 x) (- 1022) - 52"
  have q: "quantum x = 2 powi j" using xpos by (simp add: quantum_def j_def)
  have "(of_int m :: rat) < of_int (2 ^ 53)" using assms(2) by (simp only: of_int_less_iff)
  then have "x < 2 ^ 53 * 2 powi k" by (simp add: x_def)
  also have "\<dots> = 2 powi (k + 53)" by (simp add: power_int_add)
  finally have "x < 2 powi (k + 53)" .
  then have "2 powi (ilog2 x) < (2::rat) powi (k + 53)"
    using ilog2_bounds[OF xpos] by linarith
  then have "ilog2 x < k + 53" by (simp only: powi2_less_iff)
  then have jk: "j \<le> k" using assms(3) by (simp add: j_def)
  have "(2::rat) powi k = 2 powi (k - j) * 2 powi j"
    by (subst power_int_add[symmetric]) auto
  also have "(2::rat) powi (k - j) = of_int (2 ^ nat (k - j))"
    using jk by (simp add: power_int_def)
  finally have pk: "(2::rat) powi k = of_int (2 ^ nat (k - j)) * 2 powi j" .
  have "of_int m * 2 powi k = (of_int (m * 2 ^ nat (k - j)) :: rat) * 2 powi j"
    by (subst pk) simp
  then have xe: "x = of_int (m * 2 ^ nat (k - j)) * 2 powi j" by (simp only: x_def)
  have "x = of_int (m * 2 ^ nat (k - j)) * quantum x" by (subst q) (rule xe)
  then have "round_fin x = x" by (rule round_fin_multiple)
  then show ?thesis by (simp only: x_def)
qed

lemma is_double_scaled_int:
  assumes "\<bar>m\<bar> < 2 ^ 53" "- 1074 \<le> k" "k \<le> 971"
  shows "is_double (of_int m * 2 powi k)"
proof -
  have r: "round_fin (of_int m * 2 powi k) = of_int m * 2 powi k"
  proof -
    consider "0 < m" | "m = 0" | "m < 0" by linarith
    then show ?thesis
    proof cases
      case 1
      then show ?thesis using assms by (intro round_fin_scaled_int) auto
    next
      case 2
      then show ?thesis by (simp add: round_fin_zero)
    next
      case 3
      then have "round_fin (of_int (- m) * 2 powi k) = of_int (- m) * 2 powi k"
        using assms by (intro round_fin_scaled_int) auto
      then show ?thesis using round_fin_minus[of "of_int m * 2 powi k"] by simp
    qed
  qed
  have "\<bar>of_int m :: rat\<bar> < of_int (2 ^ 53)" using assms(1)
    by (metis of_int_abs of_int_less_iff)
  then have "\<bar>of_int m * 2 powi k :: rat\<bar> < 2 ^ 53 * 2 powi k"
    by (simp add: abs_mult)
  also have "\<dots> \<le> 2 ^ 53 * 2 powi 971"
    using assms(3) by (intro mult_left_mono power_int_increasing) auto
  also have "\<dots> = 2 ^ 1024" by (simp add: power_add[symmetric])
  finally show ?thesis using r by (simp add: is_double_def)
qed

lemma is_double_int: "\<bar>n\<bar> < 2 ^ 53 \<Longrightarrow> is_double (of_int n)"
  using is_double_scaled_int[of n 0] by simp

lemma is_double_power: "- 1074 \<le> k \<Longrightarrow> k \<le> 971 \<Longrightarrow> is_double (2 powi k)"
  using is_double_scaled_int[of 1 k] by simp

lemma round_double_exact: "is_double x \<Longrightarrow> round_double x = Fin x"
  by (auto simp: is_double_def round_double_def Let_def)

lemma round_double_eqI:
  assumes "round_fin x = y" "\<bar>y\<bar> < 2 ^ 1024"
  shows "round_double x = Fin y"
  using assms by (auto simp: round_double_def Let_def)


lemma rne_eqI:
  assumes "\<bar>y - of_int m\<bar> < 1 / 2"
  shows "rne y = m"
proof -
  have 1: "of_int (rne y) - y \<le> 1 / 2" "y - of_int (rne y) \<le> 1 / 2"
    using rne_bounds[of y, unfolded abs_le_iff] by linarith+
  have 2: "y - of_int m < 1 / 2" "of_int m - y < 1 / 2"
    using assms unfolding abs_less_iff by linarith+
  have "(of_int (rne y) :: rat) - of_int m < 1" "(of_int m :: rat) - of_int (rne y) < 1"
    using 1 2 by linarith+
  then have "\<bar>(of_int (rne y) :: rat) - of_int m\<bar> < 1"
    by (simp add: abs_less_iff)
  then have "\<bar>(of_int (rne y - m) :: rat)\<bar> < of_int 1" by simp
  then have "\<bar>rne y - m\<bar> < 1" by (metis of_int_abs of_int_less_iff)
  then show ?thesis by simp
qed

lemma rne_tie_up: "even m \<Longrightarrow> rne (of_int m - 1 / 2) = m"
proof -
  assume e: "even m"
  have f: "\<lfloor>(of_int m :: rat) - 1 / 2\<rfloor> = m - 1"
    by (rule floor_unique) auto
  show ?thesis using e by (simp add: rne_def f Let_def)
qed

lemma rne_tie_down: "even m \<Longrightarrow> rne (of_int m + 1 / 2) = m"
proof -
  assume e: "even m"
  have f: "\<lfloor>(of_int m :: rat) + 1 / 2\<rfloor> = m"
    by (rule floor_unique) auto
  show ?thesis using e by (simp add: rne_def f Let_def)
qed

lemma quantum_eqI:
  assumes "0 < x" "2 powi (j + 52) \<le> x \<or> j = - 1074" "x < 2 powi (j + 53)" "- 1074 \<le> j"
  shows "quantum x = 2 powi j"
proof (cases "2 powi (j + 52) \<le> x")
  case True
  have "ilog2 x = j + 52" using assms(1) True assms(3)
    by (intro ilog2_unique) (auto simp: add.assoc)
  then show ?thesis using assms(1,4) by (simp add: quantum_def)
next
  case False
  with assms(2) have j: "j = - 1074" by simp
  have "2 powi (ilog2 x) < (2::rat) powi (- 1021)"
    using ilog2_bounds[OF assms(1)] assms(3) j False by simp
  then have "ilog2 x < - 1021" by (simp only: powi2_less_iff)
  moreover have "\<not> - 1022 < ilog2 x"
  proof
    assume "- 1022 < ilog2 x"
    with \<open>ilog2 x < - 1021\<close> show False by simp
  qed
  ultimately have "max (ilog2 x) (- 1022) = - 1022" by simp
  then show ?thesis using assms(1) j by (simp add: quantum_def)
qed

lemma round_fin_eqI:
  assumes "0 < x" "2 powi (j + 52) \<le> x \<or> j = - 1074" "x < 2 powi (j + 53)" "- 1074 \<le> j"
    and "\<bar>x - of_int m * 2 powi j\<bar> * 2 < 2 powi j"
  shows "round_fin x = of_int m * 2 powi j"
proof -
  have q: "quantum x = 2 powi j" using assms(1-4) by (rule quantum_eqI)
  have p: "(0::rat) < 2 powi j" by simp
  have "\<bar>x / 2 powi j - of_int m\<bar> = \<bar>x - of_int m * 2 powi j\<bar> / 2 powi j"
    using p by (simp add: field_simps abs_divide)
  also have "\<dots> < 1 / 2" using assms(5) p by (simp add: field_simps)
  finally have "rne (x / 2 powi j) = m" by (rule rne_eqI)
  then show ?thesis using assms(1) by (simp add: round_fin_pos_eq q)
qed

lemma is_double_min_grid:
  assumes "is_double x"
  shows "\<exists>n. x = of_int n * 2 powi (- 1074)"
proof -
  obtain m where m: "x = of_int m * quantum x" using is_double_grid[OF assms] by blast
  obtain j where j: "- 1074 \<le> j" "quantum x = 2 powi j" using quantum_power[of x] by blast
  have "(2::rat) powi j = 2 powi (j + 1074) * 2 powi (- 1074)"
    by (subst power_int_add[symmetric]) auto
  also have "(2::rat) powi (j + 1074) = of_int (2 ^ nat (j + 1074))"
    using j(1) by (simp add: power_int_def)
  finally have "quantum x = of_int (2 ^ nat (j + 1074)) * 2 powi (- 1074)" by (simp only: j(2))
  then have "x = of_int (m * 2 ^ nat (j + 1074)) * 2 powi (- 1074)"
    using m by (metis mult.assoc of_int_mult)
  then show ?thesis by blast
qed

lemma round_fin_sub_pos:
  assumes "is_double a" "is_double b" "b < a"
  shows "2 powi (- 1074) \<le> round_fin (a - b)"
proof -
  obtain na where na: "a = of_int na * 2 powi (- 1074)" using is_double_min_grid[OF assms(1)] by blast
  obtain nb where nb: "b = of_int nb * 2 powi (- 1074)" using is_double_min_grid[OF assms(2)] by blast
  have u: "(0::rat) < 2 powi (- 1074)" by simp
  have d: "a - b = of_int (na - nb) * 2 powi (- 1074)"
    by (subst na, subst nb) (simp add: algebra_simps)
  have "0 < (of_int (na - nb) :: rat) * 2 powi (- 1074)" using assms(3) d by simp
  then have "0 < (of_int (na - nb) :: rat)" using u by (simp add: zero_less_mult_iff)
  then have "1 \<le> na - nb" by simp
  then have "(of_int 1 :: rat) \<le> of_int (na - nb)" by (simp only: of_int_le_iff)
  then have "1 * 2 powi (- 1074) \<le> (of_int (na - nb) :: rat) * 2 powi (- 1074)"
    using u by (intro mult_right_mono) auto
  then have "2 powi (- 1074) \<le> a - b" using d by simp
  then have "round_fin (2 powi (- 1074)) \<le> round_fin (a - b)" by (rule round_fin_mono)
  moreover have "round_fin (2 powi (- 1074)) = 2 powi (- 1074)"
    using is_double_power[of "- 1074"] by (simp add: is_double_def)
  ultimately show ?thesis by simp
qed

lemma round_double_pos:
  assumes "0 < round_fin x"
  shows "round_double x = PInf \<or> (\<exists>y. round_double x = Fin y \<and> y = round_fin x \<and> 0 < y)"
  using assms by (auto simp: round_double_def Let_def)

lemma fsub_Fin_pos:
  assumes "is_double a" "is_double b" "b < a"
  shows "flt (Fin 0) (fsub (Fin a) (Fin b))"
proof -
  have "0 < round_fin (a - b)" using round_fin_sub_pos[OF assms]
    by (smt (verit) zero_less_power_int zero_less_numeral less_le_trans)
  then show ?thesis using round_double_pos[of "a - b"] by (auto simp: fsub_def)
qed

lemma fdiv_nonzero: "d \<noteq> Fin 0 \<Longrightarrow> \<exists>v. fdiv n d = Inr v"
  by (cases d; cases n) auto

lemma denominator_nonzero:
  assumes "valid_float p_target" "valid_float p2" "\<not> fle p_target p2"
  shows "fsub p_target p2 \<noteq> Fin 0"
    and "p_target \<noteq> NaN \<Longrightarrow> p2 \<noteq> NaN \<Longrightarrow> flt (Fin 0) (fsub p_target p2)"
proof -
  have "fsub p_target p2 \<noteq> Fin 0 \<and> (p_target \<noteq> NaN \<longrightarrow> p2 \<noteq> NaN \<longrightarrow> flt (Fin 0) (fsub p_target p2))"
  proof (cases p_target)
    case (Fin a)
    show ?thesis
    proof (cases p2)
      case (Fin b)
      then have "flt (Fin 0) (fsub (Fin a) (Fin b))"
        using assms \<open>p_target = Fin a\<close> by (intro fsub_Fin_pos) auto
      then show ?thesis using Fin \<open>p_target = Fin a\<close> by auto
    qed (use assms Fin in \<open>auto simp: fsub_def\<close>)
  qed (use assms in \<open>cases p2; auto simp: fsub_def\<close>)+
  then show "fsub p_target p2 \<noteq> Fin 0"
    and "p_target \<noteq> NaN \<Longrightarrow> p2 \<noteq> NaN \<Longrightarrow> flt (Fin 0) (fsub p_target p2)" by auto
qed

lemma is_double_pow2: "k \<le> 971 \<Longrightarrow> is_double (2 ^ k)"
  using is_double_power[of "int k"] by simp

lemma rne_le_half: "y < of_int n + 1 / 2 \<Longrightarrow> rne y \<le> n"
proof -
  assume a: "y < of_int n + 1 / 2"
  have "of_int (rne y) - y \<le> 1 / 2" using rne_bounds[of y, unfolded abs_le_iff] by linarith
  then have "(of_int (rne y) :: rat) < of_int (n + 1)" using a by simp
  then have "rne y < n + 1" by (simp only: of_int_less_iff)
  then show ?thesis by simp
qed

lemma round_fin_below_max_pos:
  assumes "0 \<le> x" "x < 2 ^ 1024 - 2 ^ 970"
  shows "round_fin x < 2 ^ 1024"
proof (cases "x < 2 ^ 1023")
  case True
  then have "round_fin x \<le> round_fin (2 ^ 1023)" by (intro round_fin_mono) simp
  also have "round_fin (2 ^ 1023) = 2 ^ 1023"
    using is_double_scaled_int[of "2 ^ 52" 971] by (simp add: is_double_def)
  also have "(2::rat) ^ 1023 < 2 ^ 1024" by simp
  finally show ?thesis .
next
  case False
  then have lo: "2 ^ 1023 \<le> x" by simp
  then have xpos: "0 < x" by (smt (verit) zero_less_power zero_less_numeral less_le_trans)
  have q: "quantum x = 2 powi 971"
    using xpos lo assms(2) by (intro quantum_eqI) (auto intro: less_trans)
  have "x / 2 ^ 971 < (2 ^ 1024 - 2 ^ 970) / 2 ^ 971"
    using assms(2) by (intro divide_strict_right_mono) auto
  also have "\<dots> = of_int (2 ^ 53 - 1) + 1 / 2" by simp
  finally have "rne (x / 2 ^ 971) \<le> 2 ^ 53 - 1" by (rule rne_le_half)
  then have "(of_int (rne (x / 2 ^ 971)) :: rat) \<le> of_int (2 ^ 53 - 1)"
    by (simp only: of_int_le_iff)
  then have "round_fin x \<le> of_int (2 ^ 53 - 1) * 2 ^ 971"
    using xpos by (simp add: round_fin_pos_eq q)
  also have "\<dots> < 2 ^ 1024" by simp
  finally show ?thesis .
qed


lemma round_fin_below_max:
  assumes "\<bar>x\<bar> < 2 ^ 1024 - 2 ^ 970"
  shows "\<bar>round_fin x\<bar> < 2 ^ 1024"
proof (cases "0 \<le> x")
  case True
  then show ?thesis
    using round_fin_below_max_pos[of x] round_fin_nonneg[of x] assms by simp
next
  case False
  then have "round_fin (- x) < 2 ^ 1024" "0 \<le> round_fin (- x)"
    using round_fin_below_max_pos[of "- x"] round_fin_nonneg[of "- x"] assms by simp_all
  then show ?thesis by (simp add: round_fin_minus)
qed

lemma round_fin_threshold: "round_fin (2 ^ 1024 - 2 ^ 970) = 2 ^ 1024"
proof -
  define x :: rat where "x = 2 ^ 1024 - 2 ^ 970"
  have xpos: "0 < x" by (simp add: x_def)
  have q: "quantum x = 2 powi 971"
    using xpos by (intro quantum_eqI) (simp_all add: x_def)
  have "x / 2 ^ 971 = of_int (2 ^ 53) - 1 / 2" by (simp add: x_def)
  then have "rne (x / 2 ^ 971) = 2 ^ 53" using rne_tie_up[of "2 ^ 53"] by simp
  then have "round_fin x = 2 ^ 1024" using xpos by (simp add: round_fin_pos_eq q)
  then show ?thesis by (simp only: x_def)
qed

lemma round_fin_overflow:
  assumes "2 ^ 1024 - 2 ^ 970 \<le> x"
  shows "2 ^ 1024 \<le> round_fin x"
  using round_fin_mono[OF assms] by (simp only: round_fin_threshold)

lemma round_double_finite_iff:
  "is_finite (round_double x) \<longleftrightarrow> \<bar>x\<bar> < 2 ^ 1024 - 2 ^ 970"
proof
  assume f: "is_finite (round_double x)"
  show "\<bar>x\<bar> < 2 ^ 1024 - 2 ^ 970"
  proof (rule ccontr)
    assume "\<not> \<bar>x\<bar> < 2 ^ 1024 - 2 ^ 970"
    then consider "2 ^ 1024 - 2 ^ 970 \<le> x" | "2 ^ 1024 - 2 ^ 970 \<le> - x" by linarith
    then show False
    proof cases
      case 1
      then show False using round_fin_overflow[of x] f by (simp add: round_double_def Let_def)
    next
      case 2
      then have "2 ^ 1024 \<le> - round_fin x"
        using round_fin_overflow[of "- x"] by (simp add: round_fin_minus)
      then have "round_double x = NInf" by (simp add: round_double_def Let_def)
      then show False using f by simp
    qed
  qed
next
  assume "\<bar>x\<bar> < 2 ^ 1024 - 2 ^ 970"
  then have "\<bar>round_fin x\<bar> < 2 ^ 1024" by (rule round_fin_below_max)
  then have "round_double x = Fin (round_fin x)" by (rule round_double_eqI[OF refl])
  then show "is_finite (round_double x)" by simp
qed

lemma int_to_float_Inr:
  assumes "\<bar>i\<bar> < 2 ^ 1024 - 2 ^ 970"
  shows "int_to_float i = Inr (Fin (round_fin (of_int i)))"
proof -
  have "\<bar>of_int i :: rat\<bar> < of_int (2 ^ 1024 - 2 ^ 970)"
    using assms by (metis of_int_abs of_int_less_iff)
  then have "\<bar>round_fin (of_int i)\<bar> < 2 ^ 1024" by (intro round_fin_below_max) simp
  then have "round_double (of_int i) = Fin (round_fin (of_int i))"
    by (rule round_double_eqI[OF refl])
  then show ?thesis by (simp add: int_to_float_def)
qed

lemma int_to_float_overflow:
  assumes "2 ^ 1024 - 2 ^ 970 \<le> \<bar>i\<bar>"
  shows "int_to_float i = Inl OverflowError"
proof -
  have "(of_int (2 ^ 1024 - 2 ^ 970) :: rat) \<le> \<bar>of_int i\<bar>"
    using assms by (metis of_int_abs of_int_le_iff)
  then have "\<not> \<bar>of_int i :: rat\<bar> < 2 ^ 1024 - 2 ^ 970" by simp
  then have "\<not> is_finite (round_double (of_int i))" by (simp add: round_double_finite_iff)
  then show ?thesis by (cases "round_double (of_int i)") (simp_all add: int_to_float_def)
qed

lemma int_to_float_small: "\<bar>i\<bar> < 2 ^ 53 \<Longrightarrow> int_to_float i = Inr (Fin (of_int i))"
  using round_double_exact[OF is_double_int[of i]] by (simp add: int_to_float_def)

lemma round_double_numeral:
  "(numeral k :: int) < 2 ^ 53 \<Longrightarrow> round_double (numeral k) = Fin (numeral k)"
  using round_double_exact[OF is_double_int[of "numeral k"]] by simp

lemma round_double_neg_numeral:
  "(numeral k :: int) < 2 ^ 53 \<Longrightarrow> round_double (- numeral k) = Fin (- numeral k)"
  using round_double_exact[OF is_double_int[of "- numeral k"]] by simp

lemma round_double_0: "round_double 0 = Fin 0"
  by (simp add: round_double_def round_fin_zero)

lemma round_double_1: "round_double 1 = Fin 1"
  using round_double_exact[OF is_double_int[of 1]] by simp

lemma is_double_numeral: "(numeral k :: int) < 2 ^ 53 \<Longrightarrow> is_double (numeral k)"
  using is_double_int[of "numeral k"] by simp

lemma is_double_0: "is_double 0"
  using is_double_int[of 0] by simp

lemma flt_not_fle: "flt a b \<Longrightarrow> \<not> fle b a"
  by (cases a; cases b) auto

lemmas float_numeral_eval =
  round_double_numeral round_double_neg_numeral round_double_0 round_double_1
  is_double_numeral is_double_0 int_to_float_small fsub_def fge_def fgt_def

lemma shares_formula_Inr:
  assumes "valid_float p2" "valid_float p_target" "\<not> fle p_target p2"
    and "int_to_float q1 = Inr qf"
  shows "\<exists>q2. fdiv (fmul qf (fsub p1 p_target)) (fsub p_target p2) = Inr q2 \<and>
    shares_formula q1 p1 p2 p_target = Inr q2"
proof -
  have "fsub p_target p2 \<noteq> Fin 0" using assms(2,1,3) by (rule denominator_nonzero(1))
  then obtain q2 where "fdiv (fmul qf (fsub p1 p_target)) (fsub p_target p2) = Inr q2"
    using fdiv_nonzero by blast
  then show ?thesis using assms(4)
    by (simp add: shares_formula_def shares_numerator_def shares_denominator_def int_mul_float_def)
qed

section \<open>The claims about the break-even solver\<close>

text \<open>
  Claim C1. For \<open>0 < q1 < 2 ^ 1024 - 2 ^ 970\<close> (the integers that convert to a float),
  positive prices and \<open>p2 < p_target < p1\<close>, \<open>calculate_shares_to_buy\<close> returns the float
  value of \<open>q1 * (p1 - p_target) / (p_target - p2)\<close>: the quantity is converted to a float,
  and the subtraction, the product and the quotient are each rounded to binary64.
\<close>

theorem calculate_shares_to_buy_value:
  assumes "valid_float p1" "valid_float p2" "valid_float p_target"
    and "0 < q1" "q1 < 2 ^ 1024 - 2 ^ 970"
    and "fgt p1 (Fin 0)" "fgt p2 (Fin 0)" "flt p2 p_target" "flt p_target p1"
  shows "\<exists>qf q2. int_to_float q1 = Inr qf \<and>
           fdiv (fmul qf (fsub p1 p_target)) (fsub p_target p2) = Inr q2 \<and>
           calculate_shares_to_buy q1 p1 p2 p_target = Some q2"
proof -
  have c: "int_to_float q1 = Inr (Fin (round_fin (of_int q1)))"
    using assms(4,5) by (intro int_to_float_Inr) simp
  have g1: "\<not> fle p_target p2" using assms(8) by (rule flt_not_fle)
  have g2: "\<not> fge p_target p1" using flt_not_fle[OF assms(9)] by (simp add: fge_def)
  obtain q2 where "fdiv (fmul (Fin (round_fin (of_int q1))) (fsub p1 p_target)) (fsub p_target p2) = Inr q2"
    "shares_formula q1 p1 p2 p_target = Inr q2"
    using shares_formula_Inr[OF assms(2,3) g1 c] by blast
  then show ?thesis using c g1 g2 by (simp add: calculate_shares_to_buy_def)
qed

theorem calculate_shares_to_buy_value_witness:
  "valid_float (Fin 100) \<and> valid_float (Fin 60) \<and> valid_float (Fin 80) \<and>
   (0::int) < 10 \<and> (10::int) < 2 ^ 1024 - 2 ^ 970 \<and>
   fgt (Fin 100) (Fin 0) \<and> fgt (Fin 60) (Fin 0) \<and> flt (Fin 60) (Fin 80) \<and> flt (Fin 80) (Fin 100) \<and>
   calculate_shares_to_buy 10 (Fin 100) (Fin 60) (Fin 80) = Some (Fin 10)"
  using calculate_shares_to_buy_value[of "Fin 100" "Fin 60" "Fin 80" 10]
  by (simp add: float_numeral_eval)

theorem calculate_shares_to_buy_value_counterexample:
  "(0::int) < 2 ^ 1024 \<and> fgt (Fin 100) (Fin 0) \<and> fgt (Fin 60) (Fin 0) \<and>
   flt (Fin 60) (Fin 80) \<and> flt (Fin 80) (Fin 100) \<and>
   calculate_shares_to_buy (2 ^ 1024) (Fin 100) (Fin 60) (Fin 80) = None"
  using int_to_float_overflow[of "2 ^ 1024"]
  by (simp add: calculate_shares_to_buy_def shares_formula_def shares_numerator_def
      int_mul_float_def fge_def fgt_def)

lemma round_double_nonpos:
  assumes "x \<le> 0"
  shows "round_double x = NInf \<or> (\<exists>y. round_double x = Fin y \<and> y \<le> 0)"
  using round_fin_nonpos[OF assms] by (auto simp: round_double_def Let_def)

lemma round_double_nonneg:
  assumes "0 \<le> x"
  shows "round_double x = PInf \<or> (\<exists>y. round_double x = Fin y \<and> 0 \<le> y)"
  using round_fin_nonneg[OF assms] by (auto simp: round_double_def Let_def)

lemma fmul_nonpos:
  assumes "r \<le> 0" "flt (Fin 0) s"
  shows "\<not> flt (Fin 0) (fmul (Fin r) s)"
proof (cases s)
  case (Fin y)
  then have "r * y \<le> 0" using assms by (simp add: mult_nonpos_nonneg)
  then show ?thesis using round_double_nonpos[of "r * y"] Fin by auto
qed (use assms in \<open>auto simp: signed_inf_def\<close>)

lemma fdiv_nonpos:
  assumes "\<not> flt (Fin 0) n" "flt (Fin 0) d" "fdiv n d = Inr q"
  shows "\<not> flt (Fin 0) q"
proof (cases d)
  case (Fin y)
  then have y: "0 < y" using assms(2) by simp
  show ?thesis
  proof (cases n)
    case (Fin x)
    then have "x / y \<le> 0" using assms(1) y by (simp add: divide_nonpos_pos)
    then show ?thesis using round_double_nonpos[of "x / y"] Fin \<open>d = Fin y\<close> assms(3) y by auto
  qed (use assms Fin y in \<open>auto simp: signed_inf_def\<close>)
qed (use assms in \<open>cases n; auto simp: signed_inf_def\<close>)+

lemma flt_not_NaN: "flt a b \<Longrightarrow> a \<noteq> NaN \<and> b \<noteq> NaN"
  by (cases a; cases b) auto

lemma round_double_neg_5_16: "round_double (- (5 / 16)) = Fin (- (5 / 16))"
  using round_double_exact[OF is_double_scaled_int[of "- 5" "- 4"]] by simp

lemma portfolio_loop_summaries:
  assumes "portfolio_loop all_stocks (portfolio, ti, tcv) = Inr (portfolio', ti', tcv')"
  shows "\<exists>ds. portfolio' = portfolio @ ds \<and>
    list_all2 (\<lambda>s d. \<exists>profit_loss.
      float_mul_int (fsub (current_price s) (buy_price s)) (quantity s) = Inr profit_loss \<and>
      d = stock_data s profit_loss) all_stocks ds"
  using assms
proof (induction all_stocks arbitrary: portfolio ti tcv)
  case Nil
  then show ?case by simp
next
  case (Cons s all_stocks)
  from Cons.prems obtain st where st: "portfolio_step (portfolio, ti, tcv) s = Inr st"
    and rest: "portfolio_loop all_stocks st = Inr (portfolio', ti', tcv')"
    by (auto split: sum.splits)
  from st obtain profit_loss a b where pl:
    "float_mul_int (fsub (current_price s) (buy_price s)) (quantity s) = Inr profit_loss"
    and st_eq: "st = (portfolio @ [stock_data s profit_loss], a, b)"
    by (auto simp: portfolio_step_def split: sum.splits)
  from Cons.IH[OF rest[unfolded st_eq]] obtain ds where
    ds: "portfolio' = (portfolio @ [stock_data s profit_loss]) @ ds"
    "list_all2 (\<lambda>s d. \<exists>profit_loss.
      float_mul_int (fsub (current_price s) (buy_price s)) (quantity s) = Inr profit_loss \<and>
      d = stock_data s profit_loss) all_stocks ds"
    by blast
  show ?case
    by (rule exI[of _ "stock_data s profit_loss # ds"]) (use ds pl in auto)
qed

text \<open>The loop does not raise when every quantity converts to a float.\<close>

lemma portfolio_loop_returns:
  assumes "\<forall>s \<in> set all_stocks. \<bar>quantity s\<bar> < 2 ^ 1024 - 2 ^ 970"
    and "(ti = PInt 0 \<and> tcv = PInt 0) \<or> (\<exists>a b. ti = PFloat a \<and> tcv = PFloat b)"
  shows "\<exists>portfolio' ti' tcv'.
    portfolio_loop all_stocks (portfolio, ti, tcv) = Inr (portfolio', ti', tcv') \<and>
    ((ti' = PInt 0 \<and> tcv' = PInt 0) \<or> (\<exists>a b. ti' = PFloat a \<and> tcv' = PFloat b))"
  using assms
proof (induction all_stocks arbitrary: portfolio ti tcv)
  case Nil
  then show ?case by simp
next
  case (Cons s all_stocks)
  have q: "int_to_float (quantity s) = Inr (Fin (round_fin (of_int (quantity s))))"
    using Cons.prems(1) by (intro int_to_float_Inr) simp
  have z: "int_to_float 0 = Inr (Fin 0)" using int_to_float_small[of 0] by simp
  obtain p a b where st: "portfolio_step (portfolio, ti, tcv) s = Inr (p, PFloat a, PFloat b)"
    using Cons.prems(2) q z
    by (auto simp: portfolio_step_def float_mul_int_def int_mul_float_def)
  have "\<exists>portfolio' ti' tcv'.
    portfolio_loop all_stocks (p, PFloat a, PFloat b) = Inr (portfolio', ti', tcv') \<and>
    ((ti' = PInt 0 \<and> tcv' = PInt 0) \<or> (\<exists>a b. ti' = PFloat a \<and> tcv' = PFloat b))"
    using Cons.prems(1) by (intro Cons.IH) auto
  then show ?case using st by simp
qed

lemma rne_numeral: "rne (numeral k) = numeral k"
  using rne_of_int[of "numeral k"] by simp

lemma rne_0: "rne 0 = 0"
  using rne_of_int[of 0] by simp

lemma process_portfolio_data_returns:
  assumes "\<forall>s \<in> set all_stocks. \<bar>quantity s\<bar> < 2 ^ 1024 - 2 ^ 970"
  shows "\<exists>portfolio summary. process_portfolio_data all_stocks = Inr (portfolio, summary)"
proof -
  obtain p ti tcv where l: "portfolio_loop all_stocks ([], PInt 0, PInt 0) = Inr (p, ti, tcv)"
    and k: "(ti = PInt 0 \<and> tcv = PInt 0) \<or> (\<exists>a b. ti = PFloat a \<and> tcv = PFloat b)"
    using portfolio_loop_returns[OF assms, of "PInt 0" "PInt 0" "[]"] by auto
  from k obtain tpl where "num_sub tcv ti = Inr tpl" by auto
  then show ?thesis using l by (simp add: process_portfolio_data_def)
qed

lemmas portfolio_eval =
  process_portfolio_data_def portfolio_step_def float_mul_int_def int_mul_float_def
  float_numeral_eval rne_numeral rne_0

lemma scenario_portfolio:
  "process_portfolio_data
     [\<lparr>stock_id = 1, stock_name = ''ACME'', quantity = 10, buy_price = Fin 100,
       current_price = Fin 120, user_id = 7\<rparr>] =
   Inr ([stock_data \<lparr>stock_id = 1, stock_name = ''ACME'', quantity = 10, buy_price = Fin 100,
       current_price = Fin 120, user_id = 7\<rparr> (Fin 200)],
     [''total_investment'' \<mapsto> PFloat (Fin 1000),
      ''total_current_value'' \<mapsto> PFloat (Fin 1200),
      ''total_profit_loss'' \<mapsto> PFloat (Fin 200)])"
  by (simp add: portfolio_eval)

lemma quantum_exponent:
  assumes "0 < a" "a < 2 ^ 1024"
  shows "\<exists>j. - 1074 \<le> j \<and> j \<le> 971 \<and> quantum a = 2 powi j"
proof -
  define j where "j = max (ilog2 a) (- 1022) - 52"
  have "2 powi (ilog2 a) < (2::rat) powi 1024"
    using ilog2_bounds[OF assms(1)] assms(2) by simp
  then have "ilog2 a < 1024" by (simp only: powi2_less_iff)
  then have "- 1074 \<le> j \<and> j \<le> 971" by (simp add: j_def)
  moreover have "quantum a = 2 powi j" using assms(1) by (simp add: quantum_def j_def)
  ultimately show ?thesis by blast
qed

lemma round_fin_quantum:
  assumes "0 < a" "a < 2 ^ 1024"
  shows "round_fin (quantum a) = quantum a"
proof -
  obtain j where j: "- 1074 \<le> j" "j \<le> 971" "quantum a = 2 powi j"
    using quantum_exponent[OF assms] by blast
  have "is_double (2 powi j)" using j(1,2) by (rule is_double_power)
  then show ?thesis by (simp add: is_double_def j(3))
qed

text \<open>Two distinct positive binary64 values are at least one quantum of the smaller apart.\<close>

lemma double_gap:
  assumes "is_double a" "is_double b" "0 < a" "a < b"
  shows "quantum a \<le> b - a"
proof -
  obtain ma where ma: "a = of_int ma * quantum a" using is_double_grid[OF assms(1)] by blast
  obtain mb where mb: "b = of_int mb * quantum b" using is_double_grid[OF assms(2)] by blast
  obtain ja where ja: "quantum a = 2 powi ja" using quantum_power[of a] by blast
  obtain jb where jb: "quantum b = 2 powi jb" using quantum_power[of b] by blast
  have "quantum a \<le> quantum b" using assms(3,4) by (intro quantum_mono) auto
  then have le: "ja \<le> jb" by (simp only: ja jb powi2_le_iff)
  have "(2::rat) powi jb = 2 powi (jb - ja) * 2 powi ja"
    by (subst power_int_add[symmetric]) auto
  also have "(2::rat) powi (jb - ja) = of_int (2 ^ nat (jb - ja))"
    using le by (simp add: power_int_def)
  finally have qb: "quantum b = of_int (2 ^ nat (jb - ja)) * quantum a" by (simp only: ja jb)
  define K where "K = mb * 2 ^ nat (jb - ja) - ma"
  have "b - a = of_int mb * (of_int (2 ^ nat (jb - ja)) * quantum a) - of_int ma * quantum a"
    using ma mb qb by metis
  also have "\<dots> = of_int K * quantum a" by (simp add: K_def algebra_simps)
  finally have d: "b - a = of_int K * quantum a" .
  have "0 < (of_int K :: rat) * quantum a" using assms(4) d by simp
  then have "0 < (of_int K :: rat)" using quantum_pos[of a] by (simp add: zero_less_mult_iff)
  then have "1 \<le> K" by simp
  then have "(of_int 1 :: rat) \<le> of_int K" by (simp only: of_int_le_iff)
  then have "1 * quantum a \<le> of_int K * quantum a"
    using quantum_pos[of a] by (intro mult_right_mono) auto
  then show ?thesis using d by simp
qed

lemma round_fin_int_ge_1:
  assumes "1 \<le> q"
  shows "1 \<le> round_fin (of_int q)"
proof -
  have "(1::rat) \<le> of_int q" using assms by simp
  then have "round_fin 1 \<le> round_fin (of_int q)" by (rule round_fin_mono)
  moreover have "round_fin 1 = 1" using is_double_int[of 1] by (simp add: is_double_def)
  ultimately show ?thesis by simp
qed

lemma is_double_bound: "is_double x \<Longrightarrow> x < 2 ^ 1024"
  unfolding is_double_def by (elim conjE) (rule le_less_trans[OF abs_ge_self])

lemma round_fin_ge_quantum:
  assumes "0 < a" "a < 2 ^ 1024" "quantum a \<le> x"
  shows "quantum a \<le> round_fin x"
  using round_fin_mono[OF assms(3)] round_fin_quantum[OF assms(1,2)] by simp

lemma round_fin_quotient_pos:
  assumes "0 < a" "a < 2 ^ 1024" "quantum a \<le> n" "0 < d" "d \<le> a"
  shows "2 powi (- 53) \<le> round_fin (n / d)"
proof -
  have g: "0 < quantum a" by (rule quantum_pos)
  have "a < quantum a * 2 ^ 53" using assms(1) by (rule below_quantum)
  then have "d < quantum a * 2 ^ 53" using assms(5) by simp
  then have "d / 2 ^ 53 < quantum a" by (simp add: field_simps)
  then have "d / 2 ^ 53 \<le> n" using assms(3) by simp
  then have "1 / 2 ^ 53 \<le> n / d" using assms(4) by (simp add: field_simps)
  then have "2 powi (- 53) \<le> n / d" by (simp add: power_int_minus_divide)
  then have "round_fin (2 powi (- 53)) \<le> round_fin (n / d)" by (rule round_fin_mono)
  moreover have "round_fin (2 powi (- 53)) = 2 powi (- 53)"
    using is_double_power[of "- 53"] by (simp add: is_double_def)
  ultimately show ?thesis by simp
qed

lemma round_fin_sub_le:
  assumes "is_double a" "0 \<le> b"
  shows "round_fin (a - b) \<le> a"
proof -
  have "round_fin (a - b) \<le> round_fin a" using assms(2) by (intro round_fin_mono) simp
  then show ?thesis using assms(1) by (simp add: is_double_def)
qed

text \<open>
  The quotient computed by the solver for finite prices \<open>0 < p2 < p_target < p1\<close> and a
  converted quantity \<open>qf \<ge> 1\<close> is positive: it is \<open>+inf\<close> or at least \<open>2 ^ -53\<close>.
\<close>

lemma shares_quotient_positive:
  assumes "is_double p2" "is_double pt" "valid_float p1"
    and "0 < p2" "p2 < pt" "flt (Fin pt) p1" "1 \<le> qf"
    and "fdiv (fmul (Fin qf) (fsub p1 (Fin pt))) (fsub (Fin pt) (Fin p2)) = Inr q2"
  shows "q2 = PInf \<or> (\<exists>r. q2 = Fin r \<and> 2 powi (- 53) \<le> r)"
proof -
  have ptpos: "0 < pt" using assms(4,5) by simp
  have ptlt: "pt < 2 ^ 1024" using assms(2) by (rule is_double_bound)
  define g where "g = quantum pt"
  have gpos: "0 < g" by (simp add: g_def quantum_pos)
  \<comment> \<open>the numerator\<close>
  have s: "fsub p1 (Fin pt) = PInf \<or> (\<exists>s'. fsub p1 (Fin pt) = Fin s' \<and> g \<le> s')"
  proof (cases p1)
    case (Fin a)
    then have a: "is_double a" "pt < a" using assms(3,6) by simp_all
    have "g \<le> a - pt" unfolding g_def using assms(2) a(1) ptpos a(2) by (rule double_gap)
    then have r: "g \<le> round_fin (a - pt)"
      unfolding g_def using ptpos ptlt by (intro round_fin_ge_quantum)
    then have "0 < round_fin (a - pt)" using gpos by simp
    then show ?thesis using round_double_pos[of "a - pt"] r Fin by (auto simp: fsub_def)
  qed (use assms(6) in \<open>auto simp: fsub_def\<close>)
  have n: "fmul (Fin qf) (fsub p1 (Fin pt)) = PInf \<or>
    (\<exists>n'. fmul (Fin qf) (fsub p1 (Fin pt)) = Fin n' \<and> g \<le> n')"
  proof -
    from s consider "fsub p1 (Fin pt) = PInf" | s' where "fsub p1 (Fin pt) = Fin s'" "g \<le> s'"
      by blast
    then show ?thesis
    proof cases
      case 1
      then show ?thesis using assms(7) by (simp add: signed_inf_def)
    next
      case 2
      have "1 * g \<le> qf * s'" using assms(7) 2(2) gpos by (intro mult_mono) auto
      then have r: "g \<le> round_fin (qf * s')"
        unfolding g_def using ptpos ptlt by (intro round_fin_ge_quantum) simp_all
      then have "0 < round_fin (qf * s')" using gpos by simp
      then show ?thesis using round_double_pos[of "qf * s'"] r 2(1) by auto
    qed
  qed
  \<comment> \<open>the denominator\<close>
  define d where "d = round_fin (pt - p2)"
  have dpos: "0 < d"
    using round_fin_sub_pos[OF assms(2,1,5)]
    by (smt (verit) d_def zero_less_power_int zero_less_numeral less_le_trans)
  have dle: "d \<le> pt" unfolding d_def using assms(2,4) by (intro round_fin_sub_le) auto
  have "\<bar>d\<bar> < 2 ^ 1024" using dpos dle ptlt by simp
  then have dd: "fsub (Fin pt) (Fin p2) = Fin d"
    unfolding d_def by (simp add: fsub_def round_double_eqI)
  \<comment> \<open>the quotient\<close>
  from n consider "fmul (Fin qf) (fsub p1 (Fin pt)) = PInf"
    | n' where "fmul (Fin qf) (fsub p1 (Fin pt)) = Fin n'" "g \<le> n'"
    by blast
  then show ?thesis
  proof cases
    case 1
    then show ?thesis using assms(8) dpos by (simp add: dd signed_inf_def)
  next
    case 2
    have r: "2 powi (- 53) \<le> round_fin (n' / d)"
      using ptpos ptlt 2(2)[unfolded g_def] dpos dle by (rule round_fin_quotient_pos)
    then have "0 < round_fin (n' / d)"
      by (smt (verit) zero_less_power_int zero_less_numeral less_le_trans)
    then show ?thesis using round_double_pos[of "n' / d"] r assms(8) dpos 2(1)
      by (auto simp: dd)
  qed
qed

lemma int_to_float_InrD:
  assumes "int_to_float i = Inr f"
  shows "f = Fin (round_fin (of_int i))"
  using assms
  by (auto simp: int_to_float_def round_double_def Let_def split: pyfloat.splits if_splits)

lemma positive_price_cases:
  assumes "fgt p2 (Fin 0)" "flt p2 p_target" "flt p_target p1"
  obtains b t where "p2 = Fin b" "p_target = Fin t" "0 < b" "b < t"
  using assms by (cases p2; cases p_target; cases p1) (auto simp: fgt_def)

lemma scenario_break_even:
  "calculate_shares_to_buy 10 (Fin 100) (Fin 60) (Fin 80) = Some (Fin 10)"
  by (simp add: calculate_shares_to_buy_def shares_formula_def shares_numerator_def
      shares_denominator_def int_mul_float_def float_numeral_eval)

lemma round_fin_error: "\<bar>round_fin x - x\<bar> \<le> quantum x / 2"
proof -
  have pos: "\<bar>round_fin z - z\<bar> \<le> quantum z / 2" if "0 < z" for z
  proof -
    have q: "0 < quantum z" by (rule quantum_pos)
    have "round_fin z - z = (of_int (rne (z / quantum z)) - z / quantum z) * quantum z"
      using that q by (simp add: round_fin_pos_eq algebra_simps)
    then have "\<bar>round_fin z - z\<bar> = \<bar>of_int (rne (z / quantum z)) - z / quantum z\<bar> * quantum z"
      using q by (simp add: abs_mult)
    also have "\<dots> \<le> 1 / 2 * quantum z"
      using rne_bounds[of "z / quantum z"] q by (intro mult_right_mono) auto
    finally show ?thesis by simp
  qed
  consider "0 < x" | "x = 0" | "x < 0" by linarith
  then show ?thesis
  proof cases
    case 1
    then show ?thesis by (rule pos)
  next
    case 2
    then show ?thesis using quantum_pos[of 0] by (simp add: round_fin_zero)
  next
    case 3
    then have "\<bar>round_fin (- x) - (- x)\<bar> \<le> quantum (- x) / 2" by (intro pos) simp
    then show ?thesis by (simp add: round_fin_minus quantum_minus abs_minus_commute)
  qed
qed

lemma quantum_le_below:
  assumes "x \<noteq> 0" "\<bar>x\<bar> < 2 powi k" "- 1021 \<le> k"
  shows "quantum x \<le> 2 powi (k - 53)"
proof -
  have p: "0 < \<bar>x\<bar>" using assms(1) by simp
  have "2 powi (ilog2 \<bar>x\<bar>) < (2::rat) powi k"
    using ilog2_bounds[OF p] assms(2) by simp
  then have "ilog2 \<bar>x\<bar> < k" by (simp only: powi2_less_iff)
  then have "max (ilog2 \<bar>x\<bar>) (- 1022) - 52 \<le> k - 53" using assms(3) by simp
  then show ?thesis unfolding quantum_def by (simp only: powi2_le_iff)
qed

lemma round_fin_error_below:
  assumes "\<bar>x\<bar> < 2 powi k" "- 1021 \<le> k"
  shows "\<bar>round_fin x - x\<bar> \<le> 2 powi (k - 54)"
proof (cases "x = 0")
  case True
  then show ?thesis by (simp add: round_fin_zero)
next
  case False
  have "\<bar>round_fin x - x\<bar> \<le> quantum x / 2" by (rule round_fin_error)
  also have "\<dots> \<le> 2 powi (k - 53) / 2"
    using quantum_le_below[OF False assms] by simp
  also have "\<dots> = 2 powi (k - 54)"
    using power_int_add[of "2::rat" "k - 54" 1] by simp
  finally show ?thesis .
qed

text \<open>Rounding three amounts to cents, when the third is the difference of the first two
  up to less than half a cent.\<close>

lemma cents_consistent:
  assumes "\<bar>D - (C - I)\<bar> < 1 / 200"
  shows "\<bar>of_int (rne (D * 100)) / 100 - (of_int (rne (C * 100)) / 100 - of_int (rne (I * 100)) / 100)\<bar>
           \<le> (1::rat) / 100"
proof -
  define N where "N = rne (D * 100) - rne (C * 100) + rne (I * 100)"
  have d: "of_int (rne (D * 100)) - D * 100 \<le> 1 / 2" "D * 100 - of_int (rne (D * 100)) \<le> 1 / 2"
    using rne_bounds[of "D * 100", unfolded abs_le_iff] by linarith+
  have c: "of_int (rne (C * 100)) - C * 100 \<le> 1 / 2" "C * 100 - of_int (rne (C * 100)) \<le> 1 / 2"
    using rne_bounds[of "C * 100", unfolded abs_le_iff] by linarith+
  have i: "of_int (rne (I * 100)) - I * 100 \<le> 1 / 2" "I * 100 - of_int (rne (I * 100)) \<le> 1 / 2"
    using rne_bounds[of "I * 100", unfolded abs_le_iff] by linarith+
  have a: "D - (C - I) < 1 / 200" "(C - I) - D < 1 / 200"
    using assms unfolding abs_less_iff by linarith+
  have n: "(of_int N :: rat) = of_int (rne (D * 100)) - of_int (rne (C * 100)) + of_int (rne (I * 100))"
    by (simp add: N_def)
  have "(of_int N :: rat) < 2" "- 2 < (of_int N :: rat)"
    using d c i a unfolding n by linarith+
  then have "(of_int N :: rat) < of_int 2" "of_int (- 2) < (of_int N :: rat)" by simp_all
  then have "N < 2" "- 2 < N" by (simp_all only: of_int_less_iff)
  then have "- 1 \<le> N" "N \<le> 1" by simp_all
  then have "(of_int (- 1) :: rat) \<le> of_int N" "(of_int N :: rat) \<le> of_int 1"
    by (simp_all only: of_int_le_iff)
  then have b: "\<bar>of_int N :: rat\<bar> \<le> 1" by (simp add: abs_le_iff)
  have eq: "of_int (rne (D * 100)) / 100 - (of_int (rne (C * 100)) / 100 - of_int (rne (I * 100)) / 100)
    = (of_int N :: rat) / 100" by (simp add: n field_simps)
  show ?thesis unfolding eq using b by simp
qed

lemma powi2_step: "(2::rat) powi (k + 1) = 2 * 2 powi k"
  using power_int_add[of "2::rat" k 1] by simp

lemma cents_near: "\<bar>of_int (rne (x * 100)) / 100 - x\<bar> \<le> (1::rat) / 200"
proof -
  have "of_int (rne (x * 100)) - x * 100 \<le> 1 / 2" "x * 100 - of_int (rne (x * 100)) \<le> 1 / 2"
    using rne_bounds[of "x * 100", unfolded abs_le_iff] by linarith+
  then show ?thesis unfolding abs_le_iff by (simp add: field_simps)
qed

text \<open>One position of one share bought at 0.064 and now at 0.126 (the nearest floats).\<close>

lemma is_double_0064: "is_double (1152921504606847 / 18014398509481984)"
  using is_double_scaled_int[of 1152921504606847 "- 54"] by simp

lemma is_double_0126: "is_double (1134907106097365 / 9007199254740992)"
  using is_double_scaled_int[of 1134907106097365 "- 53"] by simp

lemma is_double_0062: "is_double (1116892707587883 / 18014398509481984)"
  using is_double_scaled_int[of 1116892707587883 "- 54"] by simp

lemma round_double_006: "round_double (3 / 50) = Fin (1080863910568919 / 18014398509481984)"
proof -
  have "round_fin (3 / 50) = of_int 8646911284551352 * 2 powi (- 57)"
    by (rule round_fin_eqI) simp_all
  then show ?thesis by (intro round_double_eqI) simp_all
qed

lemma round_double_013: "round_double (13 / 100) = Fin (1170935903116329 / 9007199254740992)"
proof -
  have "round_fin (13 / 100) = of_int 4683743612465316 * 2 powi (- 55)"
    by (rule round_fin_eqI) simp_all
  then show ?thesis by (intro round_double_eqI) simp_all
qed

lemma rne_cents_0064: "rne (1152921504606847 / 18014398509481984 * 100) = 6"
  by (rule rne_eqI) simp

lemma rne_cents_0126: "rne (1134907106097365 / 9007199254740992 * 100) = 13"
  by (rule rne_eqI) simp

lemma rne_cents_0062: "rne (1116892707587883 / 18014398509481984 * 100) = 6"
  by (rule rne_eqI) simp

lemma float_round2_0064:
  "float_round2 (Fin (1152921504606847 / 18014398509481984)) = Fin (1080863910568919 / 18014398509481984)"
  unfolding float_round2.simps rne_cents_0064 using round_double_006 by simp

lemma float_round2_0126:
  "float_round2 (Fin (1134907106097365 / 9007199254740992)) = Fin (1170935903116329 / 9007199254740992)"
  unfolding float_round2.simps rne_cents_0126 using round_double_013 by simp

lemma float_round2_0062:
  "float_round2 (Fin (1116892707587883 / 18014398509481984)) = Fin (1080863910568919 / 18014398509481984)"
  unfolding float_round2.simps rne_cents_0062 using round_double_006 by simp

lemma fsub_0126_0064:
  "fsub (Fin (1134907106097365 / 9007199254740992)) (Fin (1152921504606847 / 18014398509481984)) =
   Fin (1116892707587883 / 18014398509481984)"
  using round_double_exact[OF is_double_0062] by (simp add: fsub_def)

lemma int_mul_float_1: "is_double x \<Longrightarrow> int_mul_float 1 (Fin x) = Inr (Fin x)"
  using int_to_float_small[of 1] by (simp add: int_mul_float_def round_double_exact)

lemma float_mul_int_1: "is_double x \<Longrightarrow> float_mul_int (Fin x) 1 = Inr (Fin x)"
  using int_to_float_small[of 1] by (simp add: float_mul_int_def round_double_exact)

lemma num_add_zero: "is_double x \<Longrightarrow> num_add (PInt 0) (PFloat (Fin x)) = Inr (PFloat (Fin x))"
  using int_to_float_small[of 0] by (simp add: round_double_exact)

lemma tolerance_example:
  "process_portfolio_data
     [\<lparr>stock_id = 1, stock_name = ''ACME'', quantity = 1,
       buy_price = Fin (1152921504606847 / 18014398509481984),
       current_price = Fin (1134907106097365 / 9007199254740992), user_id = 7\<rparr>] =
   Inr ([stock_data \<lparr>stock_id = 1, stock_name = ''ACME'', quantity = 1,
       buy_price = Fin (1152921504606847 / 18014398509481984),
       current_price = Fin (1134907106097365 / 9007199254740992), user_id = 7\<rparr>
       (Fin (1116892707587883 / 18014398509481984))],
     [''total_investment'' \<mapsto> PFloat (Fin (1080863910568919 / 18014398509481984)),
      ''total_current_value'' \<mapsto> PFloat (Fin (1170935903116329 / 9007199254740992)),
      ''total_profit_loss'' \<mapsto> PFloat (Fin (1080863910568919 / 18014398509481984))])"
  by (simp add: process_portfolio_data_def portfolio_step_def fsub_0126_0064
      float_mul_int_1 int_mul_float_1 num_add_zero is_double_0064 is_double_0126 is_double_0062
      float_round2_0064 float_round2_0126 float_round2_0062
      del: float_round2.simps num_add.simps)

lemma round_fin_rel_error:
  assumes "2 powi (- 1022) \<le> \<bar>x\<bar>"
  shows "\<bar>round_fin x - x\<bar> \<le> \<bar>x\<bar> * 2 powi (- 53)"
proof -
  have p: "0 < \<bar>x\<bar>" using assms by (smt (verit) zero_less_power_int zero_less_numeral less_le_trans)
  have "(2::rat) powi (- 1022) < 2 powi (ilog2 \<bar>x\<bar> + 1)"
    using ilog2_bounds[OF p] assms by linarith
  then have "- 1022 < ilog2 \<bar>x\<bar> + 1" by (simp only: powi2_less_iff)
  then have "max (ilog2 \<bar>x\<bar>) (- 1022) = ilog2 \<bar>x\<bar>" by simp
  then have "quantum x = 2 powi (ilog2 \<bar>x\<bar> + (- 52))" by (simp add: quantum_def)
  also have "\<dots> = 2 powi (ilog2 \<bar>x\<bar>) * 2 powi (- 52)"
    by (subst power_int_add) auto
  also have "\<dots> \<le> \<bar>x\<bar> * 2 powi (- 52)"
    using ilog2_bounds[OF p] by (intro mult_right_mono) auto
  finally have "quantum x / 2 \<le> \<bar>x\<bar> * 2 powi (- 52) / 2" by simp
  also have "\<dots> = \<bar>x\<bar> * 2 powi (- 53)" by simp
  finally show ?thesis using round_fin_error[of x] by linarith
qed

lemma round_fin_grid_error:
  assumes "x = of_int n * 2 powi (- 1074)"
  shows "\<bar>round_fin x - x\<bar> \<le> \<bar>x\<bar> * 2 powi (- 53)"
proof (cases "2 powi (- 1022) \<le> \<bar>x\<bar>")
  case True
  then show ?thesis by (rule round_fin_rel_error)
next
  case False
  then have "\<bar>of_int n * 2 powi (- 1074) :: rat\<bar> < 2 powi (- 1022)" using assms by simp
  then have "\<bar>of_int n :: rat\<bar> * 2 powi (- 1074) < 2 powi 52 * 2 powi (- 1074)"
    by (simp add: abs_mult)
  then have "\<bar>of_int n :: rat\<bar> < 2 powi 52"
    by (simp only: mult_less_cancel_right_pos[OF zero_less_power_int[OF zero_less_numeral]])
  then have "\<bar>of_int n :: rat\<bar> < of_int (2 ^ 53)" by simp
  then have "\<bar>n\<bar> < 2 ^ 53" by (metis of_int_abs of_int_less_iff)
  then have "is_double (of_int n * 2 powi (- 1074))" by (intro is_double_scaled_int) simp_all
  then have "round_fin (of_int n * 2 powi (- 1074)) = of_int n * 2 powi (- 1074)"
    unfolding is_double_def by (rule conjunct1)
  then have "round_fin x = x" by (simp only: assms)
  then show ?thesis by simp
qed

lemma quantum_multiple_on_grid:
  assumes "y = of_int m * quantum x"
  shows "\<exists>n. y = of_int n * 2 powi (- 1074)"
proof -
  obtain j where j: "- 1074 \<le> j" "quantum x = 2 powi j" using quantum_power[of x] by blast
  have "(2::rat) powi j = 2 powi (j + 1074) * 2 powi (- 1074)"
    by (subst power_int_add[symmetric]) auto
  also have "(2::rat) powi (j + 1074) = of_int (2 ^ nat (j + 1074))"
    using j(1) by (simp add: power_int_def)
  finally have "quantum x = of_int (2 ^ nat (j + 1074)) * 2 powi (- 1074)" by (simp only: j(2))
  then have "y = of_int (m * 2 ^ nat (j + 1074)) * 2 powi (- 1074)"
    using assms by (metis mult.assoc of_int_mult)
  then show ?thesis by blast
qed

lemma round_fin_on_grid: "\<exists>n. round_fin x = of_int n * 2 powi (- 1074)"
  using round_fin_grid[of x] quantum_multiple_on_grid by blast

lemma round_fin_int_integer: "\<exists>z. round_fin (of_int q) = of_int z"
proof (cases "\<bar>q\<bar> < 2 ^ 53")
  case True
  then have "round_fin (of_int q) = of_int q"
    using is_double_int[of q] by (simp add: is_double_def)
  then show ?thesis by blast
next
  case False
  define x :: rat where "x = of_int q"
  have "2 ^ 53 \<le> \<bar>q\<bar>" using False by simp
  then have "(of_int (2 ^ 53) :: rat) \<le> of_int \<bar>q\<bar>" by (simp only: of_int_le_iff)
  then have big: "2 powi 53 \<le> \<bar>x\<bar>" by (simp add: x_def)
  then have p: "0 < \<bar>x\<bar>" by (smt (verit) zero_less_power_int zero_less_numeral less_le_trans)
  have "(2::rat) powi 53 < 2 powi (ilog2 \<bar>x\<bar> + 1)"
    using ilog2_bounds[OF p] big by linarith
  then have "53 < ilog2 \<bar>x\<bar> + 1" by (simp only: powi2_less_iff)
  then have e: "0 \<le> max (ilog2 \<bar>x\<bar>) (- 1022) - 52" by simp
  obtain m where m: "round_fin x = of_int m * quantum x" using round_fin_grid[of x] by blast
  have "quantum x = of_int (2 ^ nat (max (ilog2 \<bar>x\<bar>) (- 1022) - 52))"
    unfolding quantum_def using e by (simp add: power_int_def)
  then have "round_fin x = of_int (m * 2 ^ nat (max (ilog2 \<bar>x\<bar>) (- 1022) - 52))"
    using m by simp
  then show ?thesis unfolding x_def by blast
qed

subsection \<open>When the solver returns no solution\<close>

text \<open>
  Claim C2. For \<open>q1 > 0\<close>, \<open>p1 > 0\<close> and \<open>p2 > 0\<close> the result is \<open>None\<close> exactly when
  \<open>p_target <= p2\<close>, or \<open>p_target >= p1\<close>, or \<open>q1 >= 2 ^ 1024 - 2 ^ 970\<close>: such a quantity
  does not convert to a float, and the \<open>OverflowError\<close> is caught. In every other case the
  result is a float: NaN when \<open>p_target\<close> is NaN, and otherwise \<open>+inf\<close> or a finite float
  greater than zero.
\<close>

theorem calculate_shares_to_buy_result:
  assumes "valid_float p1" "valid_float p2" "valid_float p_target"
    and "0 < q1" "fgt p1 (Fin 0)" "fgt p2 (Fin 0)"
  shows "(calculate_shares_to_buy q1 p1 p2 p_target = None \<longleftrightarrow>
            fle p_target p2 \<or> fge p_target p1 \<or> 2 ^ 1024 - 2 ^ 970 \<le> q1) \<and>
         (\<forall>q2. calculate_shares_to_buy q1 p1 p2 p_target = Some q2 \<longrightarrow>
            (if p_target = NaN then q2 = NaN else q2 = PInf \<or> (\<exists>r. q2 = Fin r \<and> 0 < r)))"
proof (cases "fle p_target p2 \<or> fge p_target p1")
  case True
  then show ?thesis by (auto simp: calculate_shares_to_buy_def)
next
  case False
  then have g: "\<not> fle p_target p2" "\<not> fge p_target p1" by simp_all
  show ?thesis
  proof (cases "2 ^ 1024 - 2 ^ 970 \<le> q1")
    case True
    then have "int_to_float q1 = Inl OverflowError"
      using assms(4) by (intro int_to_float_overflow) simp
    then have "calculate_shares_to_buy q1 p1 p2 p_target = None"
      using g by (simp add: calculate_shares_to_buy_def shares_formula_def shares_numerator_def
          int_mul_float_def)
    then show ?thesis using True by simp
  next
    case small: False
    define qf :: rat where "qf = round_fin (of_int q1)"
    have c: "int_to_float q1 = Inr (Fin qf)"
      unfolding qf_def using assms(4) small by (intro int_to_float_Inr) simp
    obtain q2 where q: "fdiv (fmul (Fin qf) (fsub p1 p_target)) (fsub p_target p2) = Inr q2"
      and r: "shares_formula q1 p1 p2 p_target = Inr q2"
      using shares_formula_Inr[OF assms(2,3) g(1) c] by blast
    have res: "calculate_shares_to_buy q1 p1 p2 p_target = Some q2"
      using r g by (simp add: calculate_shares_to_buy_def)
    have val: "if p_target = NaN then q2 = NaN else q2 = PInf \<or> (\<exists>r. q2 = Fin r \<and> 0 < r)"
    proof (cases "p_target = NaN")
      case True
      then have "fsub p_target p2 = NaN" by (cases p2) (simp_all add: fsub_def)
      then have "q2 = NaN" using q by (cases "fmul (Fin qf) (fsub p1 p_target)") auto
      then show ?thesis using True by simp
    next
      case False
      have p2n: "p2 \<noteq> NaN" using assms(6) by (auto simp: fgt_def)
      have p1n: "p1 \<noteq> NaN" using assms(5) by (auto simp: fgt_def)
      have l1: "flt p2 p_target" using g(1) False p2n by (cases p_target; cases p2) auto
      have l2: "flt p_target p1" using g(2) False p1n by (cases p_target; cases p1) (auto simp: fge_def)
      obtain b t where bt: "p2 = Fin b" "p_target = Fin t" "0 < b" "b < t"
        using assms(6) l1 l2 by (rule positive_price_cases)
      have q1: "1 \<le> qf" unfolding qf_def using assms(4) by (intro round_fin_int_ge_1) simp
      have "q2 = PInf \<or> (\<exists>r. q2 = Fin r \<and> 2 powi (- 53) \<le> r)"
        using assms(1-3) bt(3,4) l2 q1 q unfolding bt(1,2)
        by (intro shares_quotient_positive[of b t p1 qf q2]) simp_all
      moreover have "0 < r" if "2 powi (- 53) \<le> r" for r :: rat
      proof -
        have "(0::rat) < 2 powi (- 53)" by simp
        then show ?thesis using that by (rule less_le_trans)
      qed
      ultimately show ?thesis using False by auto
    qed
    show ?thesis using res val small False by simp
  qed
qed


theorem calculate_shares_to_buy_result_witness:
  "valid_float (Fin 50) \<and> valid_float (Fin 40) \<and> (0::int) < 5 \<and> fgt (Fin 50) (Fin 0) \<and>
   fle (Fin 40) (Fin 50) \<and> calculate_shares_to_buy 5 (Fin 50) (Fin 50) (Fin 40) = None \<and>
   valid_float (Fin 100) \<and> valid_float (Fin 60) \<and> valid_float (Fin 80) \<and> (0::int) < 10 \<and>
   fgt (Fin 100) (Fin 0) \<and> fgt (Fin 60) (Fin 0) \<and>
   \<not> fle (Fin 80) (Fin 60) \<and> \<not> fge (Fin 80) (Fin 100) \<and> \<not> 2 ^ 1024 - 2 ^ 970 \<le> (10::int) \<and>
   calculate_shares_to_buy 10 (Fin 100) (Fin 60) (Fin 80) = Some (Fin 10) \<and> (0::rat) < 10 \<and>
   valid_float NaN \<and> calculate_shares_to_buy 10 (Fin 100) (Fin 60) NaN = Some NaN"
proof -
  have v: "valid_float (Fin 50)" "valid_float (Fin 40)" "valid_float (Fin 100)"
    "valid_float (Fin 60)" "valid_float (Fin 80)" "valid_float NaN"
    by (simp_all add: is_double_numeral)
  have p: "fgt (Fin 50) (Fin 0)" "fgt (Fin 100) (Fin 0)" "fgt (Fin 60) (Fin 0)"
    by (simp_all add: fgt_def)
  have c: "fle (Fin 40) (Fin 50)" "\<not> fle (Fin 80) (Fin 60)" "\<not> fge (Fin 80) (Fin 100)"
    "\<not> fle NaN (Fin 60)" "\<not> fge NaN (Fin 100)"
    by (simp_all add: fge_def)
  have s: "\<not> 2 ^ 1024 - 2 ^ 970 \<le> (10::int)" by simp
  have 1: "calculate_shares_to_buy 5 (Fin 50) (Fin 50) (Fin 40) = None"
    using calculate_shares_to_buy_result[OF v(1) v(1) v(2) _ p(1) p(1), of 5] c(1) by simp
  have 2: "calculate_shares_to_buy 10 (Fin 100) (Fin 60) (Fin 80) \<noteq> None"
    using calculate_shares_to_buy_result[OF v(3) v(4) v(5) _ p(2) p(3), of 10] c(2,3) s
    by simp
  have 3: "calculate_shares_to_buy 10 (Fin 100) (Fin 60) NaN = Some NaN"
  proof -
    note t = calculate_shares_to_buy_result[OF v(3) v(4) v(6) _ p(2) p(3), of 10]
    have "calculate_shares_to_buy 10 (Fin 100) (Fin 60) NaN \<noteq> None"
      using t c(4,5) s by simp
    then obtain q2 where q: "calculate_shares_to_buy 10 (Fin 100) (Fin 60) NaN = Some q2"
      by blast
    then have "q2 = NaN" using t by simp
    then show ?thesis using q by simp
  qed
  show ?thesis using v p c s 1 2 3 scenario_break_even by simp
qed

theorem calculate_shares_to_buy_result_counterexample:
  "(0::int) < 2 ^ 1025 \<and> fgt (Fin 3) (Fin 0) \<and> fgt (Fin 1) (Fin 0) \<and>
   \<not> (fle (Fin 2) (Fin 1) \<or> fge (Fin 2) (Fin 3)) \<and>
   calculate_shares_to_buy (2 ^ 1025) (Fin 3) (Fin 1) (Fin 2) = None"
  using int_to_float_overflow[of "2 ^ 1025"]
  by (simp add: calculate_shares_to_buy_def shares_formula_def shares_numerator_def
      int_mul_float_def fge_def fgt_def)

subsection \<open>Quantities and prices that are not positive\<close>

lemma not_flt_zero_cases:
  assumes "\<not> flt (Fin 0) q"
  shows "fle q (Fin 0) \<or> q = NaN"
  using assms by (cases q) auto

lemma fdiv_finite_nonpos:
  assumes "r \<le> 0" "0 < s" "0 < d"
    and "fdiv (fmul (Fin r) (Fin s)) (Fin d) = Inr q"
  shows "fle q (Fin 0)"
proof -
  have "r * s \<le> 0" using assms(1,2) by (simp add: mult_nonpos_nonneg)
  then consider "round_double (r * s) = NInf" | y where "round_double (r * s) = Fin y" "y \<le> 0"
    using round_double_nonpos by blast
  then show ?thesis
  proof cases
    case 1
    then show ?thesis using assms(3,4) by (auto simp: signed_inf_def)
  next
    case 2
    then have "y / d \<le> 0" using assms(3) by (simp add: divide_nonpos_pos)
    then consider "round_double (y / d) = NInf" | z where "round_double (y / d) = Fin z" "z \<le> 0"
      using round_double_nonpos by blast
    then show ?thesis using 2(1) assms(3,4) by cases auto
  qed
qed

text \<open>
  Claim C9. There is no positivity check on \<open>q1\<close>, \<open>p1\<close> or \<open>p2\<close>: for \<open>p2 < p_target < p1\<close>
  the result is \<open>None\<close> when \<open>\<bar>q1\<bar> >= 2 ^ 1024 - 2 ^ 970\<close> (the conversion of \<open>q1\<close> to a float
  raises), and otherwise it is the float value of \<open>q1 * (p1 - p_target) / (p_target - p2)\<close>,
  whatever the signs of \<open>q1\<close> and \<open>p2\<close>. For \<open>q1 <= 0\<close> this value is NaN or not greater than
  zero (zero, negative or \<open>-inf\<close>), and it is not greater than zero when the two differences
  are finite.
\<close>

theorem calculate_shares_to_buy_no_positivity_check:
  assumes "valid_float p1" "valid_float p2" "valid_float p_target"
    and "flt p2 p_target" "flt p_target p1"
  shows "(2 ^ 1024 - 2 ^ 970 \<le> \<bar>q1\<bar> \<longrightarrow> calculate_shares_to_buy q1 p1 p2 p_target = None) \<and>
         (\<bar>q1\<bar> < 2 ^ 1024 - 2 ^ 970 \<longrightarrow>
            (\<exists>qf q2. int_to_float q1 = Inr qf \<and>
               fdiv (fmul qf (fsub p1 p_target)) (fsub p_target p2) = Inr q2 \<and>
               calculate_shares_to_buy q1 p1 p2 p_target = Some q2 \<and>
               (q1 \<le> 0 \<longrightarrow> fle q2 (Fin 0) \<or> q2 = NaN) \<and>
               (q1 \<le> 0 \<and> is_finite (fsub p1 p_target) \<and> is_finite (fsub p_target p2) \<longrightarrow>
                  fle q2 (Fin 0))))"
proof (intro conjI impI)
  assume "2 ^ 1024 - 2 ^ 970 \<le> \<bar>q1\<bar>"
  then have "int_to_float q1 = Inl OverflowError" by (rule int_to_float_overflow)
  then show "calculate_shares_to_buy q1 p1 p2 p_target = None"
    by (simp add: calculate_shares_to_buy_def shares_formula_def shares_numerator_def
        int_mul_float_def)
next
  assume small: "\<bar>q1\<bar> < 2 ^ 1024 - 2 ^ 970"
  define r :: rat where "r = round_fin (of_int q1)"
  have c: "int_to_float q1 = Inr (Fin r)"
    unfolding r_def using small by (rule int_to_float_Inr)
  have g1: "\<not> fle p_target p2" using assms(4) by (rule flt_not_fle)
  have g2: "\<not> fle p1 p_target" using assms(5) by (rule flt_not_fle)
  obtain q2 where q2: "fdiv (fmul (Fin r) (fsub p1 p_target)) (fsub p_target p2) = Inr q2"
    "shares_formula q1 p1 p2 p_target = Inr q2"
    using shares_formula_Inr[OF assms(2,3) g1 c] by blast
  have res: "calculate_shares_to_buy q1 p1 p2 p_target = Some q2"
    using q2(2) g1 g2 by (simp add: calculate_shares_to_buy_def fge_def)
  have sp: "flt (Fin 0) (fsub p1 p_target)"
    using denominator_nonzero(2)[OF assms(1,3) g2] flt_not_NaN[OF assms(5)] by simp
  have dp: "flt (Fin 0) (fsub p_target p2)"
    using denominator_nonzero(2)[OF assms(3,2) g1] flt_not_NaN[OF assms(4)] by simp
  have rn: "r \<le> 0" if "q1 \<le> 0"
  proof -
    have "(of_int q1 :: rat) \<le> 0" using that by simp
    then show ?thesis unfolding r_def by (rule round_fin_nonpos)
  qed
  have s1: "fle q2 (Fin 0) \<or> q2 = NaN" if "q1 \<le> 0"
  proof -
    have "\<not> flt (Fin 0) (fmul (Fin r) (fsub p1 p_target))"
      using rn[OF that] sp by (rule fmul_nonpos)
    then have "\<not> flt (Fin 0) q2" using dp q2(1) by (rule fdiv_nonpos)
    then show ?thesis by (rule not_flt_zero_cases)
  qed
  have s2: "fle q2 (Fin 0)"
    if h: "q1 \<le> 0 \<and> is_finite (fsub p1 p_target) \<and> is_finite (fsub p_target p2)"
  proof -
    obtain s where s: "fsub p1 p_target = Fin s"
      by (cases "fsub p1 p_target") (use h in auto)
    obtain d where d: "fsub p_target p2 = Fin d"
      by (cases "fsub p_target p2") (use h in auto)
    have "0 < s" "0 < d" using sp dp by (simp_all add: s d)
    moreover have "r \<le> 0" using h rn by simp
    ultimately show ?thesis using q2(1) unfolding s d
      by (intro fdiv_finite_nonpos[of r s d q2]) auto
  qed
  show "\<exists>qf q2. int_to_float q1 = Inr qf \<and>
               fdiv (fmul qf (fsub p1 p_target)) (fsub p_target p2) = Inr q2 \<and>
               calculate_shares_to_buy q1 p1 p2 p_target = Some q2 \<and>
               (q1 \<le> 0 \<longrightarrow> fle q2 (Fin 0) \<or> q2 = NaN) \<and>
               (q1 \<le> 0 \<and> is_finite (fsub p1 p_target) \<and> is_finite (fsub p_target p2) \<longrightarrow>
                  fle q2 (Fin 0))"
    using c q2(1) res s1 s2 by blast
qed

theorem calculate_shares_to_buy_no_positivity_check_witness:
  "valid_float (Fin 100) \<and> valid_float (Fin (- 48)) \<and> valid_float (Fin 80) \<and>
   flt (Fin (- 48)) (Fin 80) \<and> flt (Fin 80) (Fin 100) \<and>
   \<bar>- 2 :: int\<bar> < 2 ^ 1024 - 2 ^ 970 \<and> (- 2 :: int) \<le> 0 \<and>
   is_finite (fsub (Fin 100) (Fin 80)) \<and> is_finite (fsub (Fin 80) (Fin (- 48))) \<and>
   calculate_shares_to_buy (- 2) (Fin 100) (Fin (- 48)) (Fin 80) = Some (Fin (- (5 / 16))) \<and>
   fle (Fin (- (5 / 16))) (Fin 0) \<and>
   2 ^ 1024 - 2 ^ 970 \<le> \<bar>- (2 ^ 1024) :: int\<bar> \<and>
   calculate_shares_to_buy (- (2 ^ 1024)) (Fin 100) (Fin (- 48)) (Fin 80) = None"
  using calculate_shares_to_buy_no_positivity_check[of "Fin 100" "Fin (- 48)" "Fin 80" "- 2"]
    calculate_shares_to_buy_no_positivity_check[of "Fin 100" "Fin (- 48)" "Fin 80" "- (2 ^ 1024)"]
    is_double_int[of "- 48"]
  by (simp add: float_numeral_eval round_double_neg_5_16)

theorem calculate_shares_to_buy_no_positivity_check_counterexample:
  "flt (Fin (- 48)) (Fin 80) \<and> flt (Fin 80) (Fin 100) \<and>
   calculate_shares_to_buy (- (2 ^ 1024)) (Fin 100) (Fin (- 48)) (Fin 80) = None \<and>
   (0::int) \<le> 0 \<and> flt (Fin 60) (Fin 80) \<and> flt (Fin 80) PInf \<and>
   calculate_shares_to_buy 0 PInf (Fin 60) (Fin 80) = Some NaN \<and>
   \<not> fle NaN (Fin 0)"
  using int_to_float_overflow[of "- (2 ^ 1024)"] int_to_float_small[of 0]
  by (simp add: calculate_shares_to_buy_def shares_formula_def shares_numerator_def
      shares_denominator_def int_mul_float_def fge_def fsub_def signed_inf_def float_numeral_eval)

subsection \<open>The division is guarded by the two checks\<close>

lemma calculate_shares_to_buy_steps_result:
  "snd (calculate_shares_to_buy_steps q1 p1 p2 p_target) =
     calculate_shares_to_buy q1 p1 p2 p_target"
  by (simp add: calculate_shares_to_buy_steps_def calculate_shares_to_buy_def shares_formula_def
      split: sum.splits)

text \<open>
  Claim C4. The returned value of the instrumented function is that of
  \<open>calculate_shares_to_buy\<close>, and in every run that evaluates the division both checks were
  evaluated before it and were false, nothing else was evaluated in between, the
  denominator is \<open>p_target - p2\<close> and is not zero, and the division does not raise
  \<open>ZeroDivisionError\<close>. The denominator is strictly positive unless \<open>p_target\<close> or \<open>p2\<close> is NaN;
  then it is NaN.
\<close>

theorem division_by_zero_unreachable:
  assumes "valid_float p2" "valid_float p_target"
  shows "snd (calculate_shares_to_buy_steps q1 p1 p2 p_target) =
           calculate_shares_to_buy q1 p1 p2 p_target \<and>
         (\<forall>n d. Divide n d \<in> set (fst (calculate_shares_to_buy_steps q1 p1 p2 p_target)) \<longrightarrow>
            fst (calculate_shares_to_buy_steps q1 p1 p2 p_target) =
              [Check_target_le_p2 False, Check_target_ge_p1 False, Divide n d] \<and>
            \<not> fle p_target p2 \<and> \<not> fge p_target p1 \<and>
            d = fsub p_target p2 \<and> d \<noteq> Fin 0 \<and> fdiv n d \<noteq> Inl ZeroDivisionError \<and>
            (if p_target = NaN \<or> p2 = NaN then d = NaN else fgt d (Fin 0)))"
proof (intro conjI allI impI)
  show "snd (calculate_shares_to_buy_steps q1 p1 p2 p_target) =
      calculate_shares_to_buy q1 p1 p2 p_target"
    by (rule calculate_shares_to_buy_steps_result)
next
  fix n d
  assume a: "Divide n d \<in> set (fst (calculate_shares_to_buy_steps q1 p1 p2 p_target))"
  then have g: "\<not> fle p_target p2" "\<not> fge p_target p1"
    by (auto simp: calculate_shares_to_buy_steps_def split: if_splits sum.splits)
  from a g have d: "d = fsub p_target p2"
    and t: "fst (calculate_shares_to_buy_steps q1 p1 p2 p_target) =
      [Check_target_le_p2 False, Check_target_ge_p1 False, Divide n d]"
    by (auto simp: calculate_shares_to_buy_steps_def shares_denominator_def split: sum.splits)
  have nz: "d \<noteq> Fin 0" unfolding d using assms(2,1) g(1) by (rule denominator_nonzero(1))
  obtain v where "fdiv n d = Inr v" using fdiv_nonzero[OF nz] by blast
  then have nr: "fdiv n d \<noteq> Inl ZeroDivisionError" by simp
  have s: "if p_target = NaN \<or> p2 = NaN then d = NaN else fgt d (Fin 0)"
  proof (cases "p_target = NaN \<or> p2 = NaN")
    case True
    then have "d = NaN" unfolding d by (cases p_target; cases p2) (auto simp: fsub_def)
    then show ?thesis using True by simp
  next
    case False
    then have "flt (Fin 0) (fsub p_target p2)"
      using denominator_nonzero(2)[OF assms(2,1) g(1)] by simp
    then show ?thesis using False by (simp add: d fgt_def)
  qed
  show "fst (calculate_shares_to_buy_steps q1 p1 p2 p_target) =
      [Check_target_le_p2 False, Check_target_ge_p1 False, Divide n d]" by (rule t)
  show "\<not> fle p_target p2" "\<not> fge p_target p1" by (rule g)+
  show "d = fsub p_target p2" by (rule d)
  show "d \<noteq> Fin 0" by (rule nz)
  show "fdiv n d \<noteq> Inl ZeroDivisionError" by (rule nr)
  show "if p_target = NaN \<or> p2 = NaN then d = NaN else fgt d (Fin 0)" by (rule s)
qed

lemma scenario_break_even_steps:
  "calculate_shares_to_buy_steps 10 (Fin 100) (Fin 60) (Fin 80) =
     ([Check_target_le_p2 False, Check_target_ge_p1 False, Divide (Fin 200) (Fin 20)],
      Some (Fin 10))"
  by (simp add: calculate_shares_to_buy_steps_def shares_numerator_def
      shares_denominator_def int_mul_float_def float_numeral_eval)

theorem division_by_zero_unreachable_witness:
  "valid_float (Fin 60) \<and> valid_float (Fin 80) \<and>
   calculate_shares_to_buy_steps 10 (Fin 100) (Fin 60) (Fin 80) =
     ([Check_target_le_p2 False, Check_target_ge_p1 False, Divide (Fin 200) (Fin 20)],
      Some (Fin 10)) \<and>
   Divide (Fin 200) (Fin 20) \<in>
     set (fst (calculate_shares_to_buy_steps 10 (Fin 100) (Fin 60) (Fin 80))) \<and>
   calculate_shares_to_buy 10 (Fin 100) (Fin 60) (Fin 80) = Some (Fin 10) \<and>
   \<not> fle (Fin 80) (Fin 60) \<and> \<not> fge (Fin 80) (Fin 100) \<and>
   Fin 20 = fsub (Fin 80) (Fin 60) \<and> Fin 20 \<noteq> Fin 0 \<and>
   fdiv (Fin 200) (Fin 20) \<noteq> Inl ZeroDivisionError \<and> fgt (Fin 20) (Fin 0)"
proof -
  have v: "valid_float (Fin 60)" "valid_float (Fin 80)" by (simp_all add: is_double_numeral)
  note t = division_by_zero_unreachable[OF v, of 10 "Fin 100"]
  have m: "Divide (Fin 200) (Fin 20) \<in>
     set (fst (calculate_shares_to_buy_steps 10 (Fin 100) (Fin 60) (Fin 80)))"
    by (simp add: scenario_break_even_steps)
  have r: "calculate_shares_to_buy 10 (Fin 100) (Fin 60) (Fin 80) = Some (Fin 10)"
    using t by (simp add: scenario_break_even_steps)
  have "\<not> fle (Fin 80) (Fin 60) \<and> \<not> fge (Fin 80) (Fin 100) \<and>
   Fin 20 = fsub (Fin 80) (Fin 60) \<and> Fin 20 \<noteq> Fin 0 \<and>
   fdiv (Fin 200) (Fin 20) \<noteq> Inl ZeroDivisionError \<and>
   (if Fin 80 = NaN \<or> Fin 60 = NaN then Fin 20 = NaN else fgt (Fin 20) (Fin 0))"
    using t m by blast
  then show ?thesis using v m r scenario_break_even_steps by (simp add: float_numeral_eval)
qed

theorem division_by_zero_unreachable_counterexample:
  "\<not> fle NaN (Fin 60) \<and> \<not> fge NaN (Fin 100) \<and>
   calculate_shares_to_buy_steps 10 (Fin 100) (Fin 60) NaN =
     ([Check_target_le_p2 False, Check_target_ge_p1 False, Divide NaN NaN], Some NaN) \<and>
   shares_denominator (Fin 60) NaN = NaN \<and> \<not> fgt NaN (Fin 0)"
  by (simp add: calculate_shares_to_buy_steps_def shares_numerator_def
      shares_denominator_def int_mul_float_def float_numeral_eval)

section \<open>The claim about the update of a position already held\<close>

lemma round_fin_int_nonzero:
  assumes "i \<noteq> 0"
  shows "round_fin (of_int i) \<noteq> 0"
proof (cases "0 < i")
  case True
  then have "1 \<le> round_fin (of_int i)" by (intro round_fin_int_ge_1) simp
  then show ?thesis by simp
next
  case False
  then have "1 \<le> - i" using assms by simp
  then have "1 \<le> round_fin (of_int (- i))" by (rule round_fin_int_ge_1)
  then show ?thesis using round_fin_minus[of "of_int i"] by simp
qed

text \<open>
  Claim C8. Whenever the update of a position already held completes, the new row has the
  old quantity plus the purchased quantity, the buy price
  \<open>(old_quantity * old_buy_price + purchased_quantity * purchase_price) / new_quantity\<close> in
  float arithmetic (each quantity converted to a float, each operation rounded), and the
  current price of the form; the other columns are unchanged. It completes when the three
  quantities convert to floats and the new quantity is not zero; when the new quantity is
  zero the division raises \<open>ZeroDivisionError\<close>.
\<close>

theorem update_existing_stock_rule:
  "(update_existing_stock s form_quantity form_buy_price form_current_price = Inr s' \<longrightarrow>
      s' = s\<lparr>quantity := quantity s + form_quantity, buy_price := buy_price s',
             current_price := form_current_price\<rparr> \<and>
      fdiv (fadd (fmul (Fin (round_fin (of_int (quantity s)))) (buy_price s))
                 (fmul (Fin (round_fin (of_int form_quantity))) form_buy_price))
           (Fin (round_fin (of_int (quantity s + form_quantity)))) = Inr (buy_price s')) \<and>
   (\<bar>quantity s\<bar> < 2 ^ 1024 - 2 ^ 970 \<and> \<bar>form_quantity\<bar> < 2 ^ 1024 - 2 ^ 970 \<and>
    \<bar>quantity s + form_quantity\<bar> < 2 ^ 1024 - 2 ^ 970 \<longrightarrow>
      (if quantity s + form_quantity = 0
       then update_existing_stock s form_quantity form_buy_price form_current_price =
              Inl ZeroDivisionError
       else \<exists>s'. update_existing_stock s form_quantity form_buy_price form_current_price =
              Inr s'))"
proof (intro conjI impI)
  assume a: "update_existing_stock s form_quantity form_buy_price form_current_price = Inr s'"
  then obtain f1 f2 f3 avg where f1: "int_to_float (quantity s) = Inr f1"
    and f2: "int_to_float form_quantity = Inr f2"
    and f3: "int_to_float (quantity s + form_quantity) = Inr f3"
    and d: "fdiv (fadd (fmul f1 (buy_price s)) (fmul f2 form_buy_price)) f3 = Inr avg"
    and s': "s' = s\<lparr>quantity := quantity s + form_quantity, buy_price := avg,
             current_price := form_current_price\<rparr>"
    by (auto simp: update_existing_stock_def int_mul_float_def float_div_int_def Let_def
        split: sum.splits)
  have e1: "f1 = Fin (round_fin (of_int (quantity s)))" using f1 by (rule int_to_float_InrD)
  have e2: "f2 = Fin (round_fin (of_int form_quantity))" using f2 by (rule int_to_float_InrD)
  have e3: "f3 = Fin (round_fin (of_int (quantity s + form_quantity)))"
    using f3 by (rule int_to_float_InrD)
  note e = e1 e2 e3
  have b: "buy_price s' = avg" by (simp add: s')
  show "s' = s\<lparr>quantity := quantity s + form_quantity, buy_price := buy_price s',
             current_price := form_current_price\<rparr>"
    unfolding b by (rule s')
  show "fdiv (fadd (fmul (Fin (round_fin (of_int (quantity s)))) (buy_price s))
                 (fmul (Fin (round_fin (of_int form_quantity))) form_buy_price))
           (Fin (round_fin (of_int (quantity s + form_quantity)))) = Inr (buy_price s')"
    unfolding b using d unfolding e .
next
  assume r: "\<bar>quantity s\<bar> < 2 ^ 1024 - 2 ^ 970 \<and> \<bar>form_quantity\<bar> < 2 ^ 1024 - 2 ^ 970 \<and>
    \<bar>quantity s + form_quantity\<bar> < 2 ^ 1024 - 2 ^ 970"
  have c1: "int_to_float (quantity s) = Inr (Fin (round_fin (of_int (quantity s))))"
    using r by (intro int_to_float_Inr) simp
  have c2: "int_to_float form_quantity = Inr (Fin (round_fin (of_int form_quantity)))"
    using r by (intro int_to_float_Inr) simp
  have c3: "int_to_float (quantity s + form_quantity) =
      Inr (Fin (round_fin (of_int (quantity s + form_quantity))))"
    using r by (intro int_to_float_Inr) simp
  show "if quantity s + form_quantity = 0
       then update_existing_stock s form_quantity form_buy_price form_current_price =
              Inl ZeroDivisionError
       else \<exists>s'. update_existing_stock s form_quantity form_buy_price form_current_price =
              Inr s'"
  proof (cases "quantity s + form_quantity = 0")
    case True
    have "int_to_float 0 = Inr (Fin 0)" using int_to_float_small[of 0] by simp
    then have "update_existing_stock s form_quantity form_buy_price form_current_price =
        Inl ZeroDivisionError"
      using c1 c2 True
      by (simp add: update_existing_stock_def int_mul_float_def float_div_int_def)
    then show ?thesis using True by simp
  next
    case False
    then have "round_fin (of_int (quantity s + form_quantity)) \<noteq> 0"
      by (rule round_fin_int_nonzero)
    then have "Fin (round_fin (of_int (quantity s + form_quantity))) \<noteq> Fin 0" by simp
    then obtain v where v:
      "fdiv (fadd (fmul (Fin (round_fin (of_int (quantity s)))) (buy_price s))
                  (fmul (Fin (round_fin (of_int form_quantity))) form_buy_price))
            (Fin (round_fin (of_int (quantity s + form_quantity)))) = Inr v"
      using fdiv_nonzero by blast
    have "update_existing_stock s form_quantity form_buy_price form_current_price =
        Inr (s\<lparr>quantity := quantity s + form_quantity, buy_price := v,
               current_price := form_current_price\<rparr>)"
      using c1 c2 c3 v
      by (simp add: update_existing_stock_def int_mul_float_def float_div_int_def Let_def
          del: fdiv.simps)
    then show ?thesis using False by auto
  qed
qed

lemma round_fin_numeral: "(numeral k :: int) < 2 ^ 53 \<Longrightarrow> round_fin (numeral k) = numeral k"
  using is_double_numeral[of k] by (simp add: is_double_def)

lemma round_double_110_7: "round_double (110 / 7) = Fin (8846356410906331 / 562949953421312)"
proof -
  have "round_fin (110 / 7) = of_int 8846356410906331 * 2 powi (- 49)"
    by (rule round_fin_eqI) simp_all
  then show ?thesis by (intro round_double_eqI) simp_all
qed

theorem update_existing_stock_rule_witness:
  "\<bar>3 :: int\<bar> < 2 ^ 1024 - 2 ^ 970 \<and> \<bar>4 :: int\<bar> < 2 ^ 1024 - 2 ^ 970 \<and>
   \<bar>3 + 4 :: int\<bar> < 2 ^ 1024 - 2 ^ 970 \<and> (3 + 4 :: int) \<noteq> 0 \<and>
   update_existing_stock
     \<lparr>stock_id = 1, stock_name = ''ACME'', quantity = 3, buy_price = Fin 10,
      current_price = Fin 12, user_id = 7\<rparr> 4 (Fin 20) (Fin 21) =
   Inr \<lparr>stock_id = 1, stock_name = ''ACME'', quantity = 7,
      buy_price = Fin (8846356410906331 / 562949953421312),
      current_price = Fin 21, user_id = 7\<rparr> \<and>
   update_existing_stock
     \<lparr>stock_id = 1, stock_name = ''ACME'', quantity = 10, buy_price = Fin 100,
      current_price = Fin 120, user_id = 7\<rparr> 10 (Fin 80) (Fin 85) =
   Inr \<lparr>stock_id = 1, stock_name = ''ACME'', quantity = 20, buy_price = Fin 90,
      current_price = Fin 85, user_id = 7\<rparr> \<and>
   (5 + (- 5) :: int) = 0 \<and>
   update_existing_stock
     \<lparr>stock_id = 1, stock_name = ''ACME'', quantity = 5, buy_price = Fin 100,
      current_price = Fin 120, user_id = 7\<rparr> (- 5) (Fin 80) (Fin 85) =
   Inl ZeroDivisionError"
proof -
  let ?a = "\<lparr>stock_id = 1, stock_name = ''ACME'', quantity = 3, buy_price = Fin 10,
      current_price = Fin 12, user_id = 7\<rparr>"
  let ?b = "\<lparr>stock_id = 1, stock_name = ''ACME'', quantity = 10, buy_price = Fin 100,
      current_price = Fin 120, user_id = 7\<rparr>"
  let ?c = "\<lparr>stock_id = 1, stock_name = ''ACME'', quantity = 5, buy_price = Fin 100,
      current_price = Fin 120, user_id = 7\<rparr>"
  have 1: "update_existing_stock ?a 4 (Fin 20) (Fin 21) =
    Inr \<lparr>stock_id = 1, stock_name = ''ACME'', quantity = 7,
      buy_price = Fin (8846356410906331 / 562949953421312),
      current_price = Fin 21, user_id = 7\<rparr>"
  proof -
    have "\<exists>s'. update_existing_stock ?a 4 (Fin 20) (Fin 21) = Inr s'"
      using update_existing_stock_rule[of ?a 4 "Fin 20" "Fin 21", THEN conjunct2] by simp
    then obtain s' where s': "update_existing_stock ?a 4 (Fin 20) (Fin 21) = Inr s'" by blast
    note t = update_existing_stock_rule[of ?a 4 "Fin 20" "Fin 21" s', THEN conjunct1,
        THEN mp, OF s']
    have "buy_price s' = Fin (8846356410906331 / 562949953421312)"
      using t[THEN conjunct2]
      by (simp add: round_fin_numeral round_double_numeral round_double_110_7)
    then show ?thesis using t[THEN conjunct1] s' by simp
  qed
  have 2: "update_existing_stock ?b 10 (Fin 80) (Fin 85) =
    Inr \<lparr>stock_id = 1, stock_name = ''ACME'', quantity = 20, buy_price = Fin 90,
      current_price = Fin 85, user_id = 7\<rparr>"
  proof -
    have "\<exists>s'. update_existing_stock ?b 10 (Fin 80) (Fin 85) = Inr s'"
      using update_existing_stock_rule[of ?b 10 "Fin 80" "Fin 85", THEN conjunct2] by simp
    then obtain s' where s': "update_existing_stock ?b 10 (Fin 80) (Fin 85) = Inr s'" by blast
    note t = update_existing_stock_rule[of ?b 10 "Fin 80" "Fin 85" s', THEN conjunct1,
        THEN mp, OF s']
    have "buy_price s' = Fin 90"
      using t[THEN conjunct2] by (simp add: round_fin_numeral round_double_numeral)
    then show ?thesis using t[THEN conjunct1] s' by simp
  qed
  have 3: "update_existing_stock ?c (- 5) (Fin 80) (Fin 85) = Inl ZeroDivisionError"
    using update_existing_stock_rule[of ?c "- 5" "Fin 80" "Fin 85", THEN conjunct2]
    by simp
  show ?thesis using 1 2 3 by simp
qed

section \<open>The claims about the portfolio aggregator\<close>

lemma portfolio_step_Inr:
  assumes "portfolio_step (portfolio, ti, tcv) s = Inr st"
  shows "\<exists>ti' tcv'.
    st = (portfolio @ [stock_data s (fmul (fsub (current_price s) (buy_price s))
            (Fin (round_fin (of_int (quantity s)))))], ti', tcv') \<and>
    num_add ti (PFloat (fmul (Fin (round_fin (of_int (quantity s)))) (buy_price s))) = Inr ti' \<and>
    num_add tcv (PFloat (fmul (Fin (round_fin (of_int (quantity s)))) (current_price s))) =
      Inr tcv'"
proof -
  from assms obtain f where f: "int_to_float (quantity s) = Inr f"
    by (auto simp: portfolio_step_def float_mul_int_def split: sum.splits)
  have "f = Fin (round_fin (of_int (quantity s)))" using f by (rule int_to_float_InrD)
  then have c: "int_to_float (quantity s) = Inr (Fin (round_fin (of_int (quantity s))))"
    using f by simp
  show ?thesis using assms
    by (auto simp: portfolio_step_def float_mul_int_def int_mul_float_def c split: sum.splits)
qed

lemma portfolio_loop_float:
  assumes "portfolio_loop all_stocks (portfolio, PFloat a, PFloat b) = Inr (portfolio', ti', tcv')"
  shows "portfolio' = portfolio @ map (\<lambda>s. stock_data s
             (fmul (fsub (current_price s) (buy_price s)) (Fin (round_fin (of_int (quantity s))))))
           all_stocks \<and>
         ti' = PFloat (foldl fadd a
           (map (\<lambda>s. fmul (Fin (round_fin (of_int (quantity s)))) (buy_price s)) all_stocks)) \<and>
         tcv' = PFloat (foldl fadd b
           (map (\<lambda>s. fmul (Fin (round_fin (of_int (quantity s)))) (current_price s)) all_stocks))"
  using assms
proof (induction all_stocks arbitrary: portfolio a b)
  case Nil
  then show ?case by simp
next
  case (Cons s all_stocks)
  from Cons.prems obtain st where st: "portfolio_step (portfolio, PFloat a, PFloat b) s = Inr st"
    and rest: "portfolio_loop all_stocks st = Inr (portfolio', ti', tcv')"
    by (auto split: sum.splits)
  from portfolio_step_Inr[OF st] have st_eq:
    "st = (portfolio @ [stock_data s (fmul (fsub (current_price s) (buy_price s))
            (Fin (round_fin (of_int (quantity s)))))],
          PFloat (fadd a (fmul (Fin (round_fin (of_int (quantity s)))) (buy_price s))),
          PFloat (fadd b (fmul (Fin (round_fin (of_int (quantity s)))) (current_price s))))"
    by auto
  from Cons.IH[OF rest[unfolded st_eq]] show ?case by simp
qed

lemma portfolio_loop_start:
  assumes "portfolio_loop all_stocks ([], PInt 0, PInt 0) = Inr (portfolio, ti, tcv)"
  shows "portfolio = map (\<lambda>s. stock_data s
             (fmul (fsub (current_price s) (buy_price s)) (Fin (round_fin (of_int (quantity s))))))
           all_stocks \<and>
         (if all_stocks = [] then ti = PInt 0 \<and> tcv = PInt 0
          else ti = PFloat (sum_of_products buy_price all_stocks) \<and>
               tcv = PFloat (sum_of_products current_price all_stocks))"
proof (cases all_stocks)
  case Nil
  then show ?thesis using assms by auto
next
  case (Cons s rest)
  from assms obtain st where st: "portfolio_step ([], PInt 0, PInt 0) s = Inr st"
    and r: "portfolio_loop rest st = Inr (portfolio, ti, tcv)"
    unfolding Cons by (auto split: sum.splits)
  have z: "int_to_float 0 = Inr (Fin 0)" using int_to_float_small[of 0] by simp
  from portfolio_step_Inr[OF st] have st_eq:
    "st = ([stock_data s (fmul (fsub (current_price s) (buy_price s))
            (Fin (round_fin (of_int (quantity s)))))],
          PFloat (fadd (Fin 0) (fmul (Fin (round_fin (of_int (quantity s)))) (buy_price s))),
          PFloat (fadd (Fin 0) (fmul (Fin (round_fin (of_int (quantity s)))) (current_price s))))"
    by (auto simp: z)
  from portfolio_loop_float[OF r[unfolded st_eq]] show ?thesis
    unfolding Cons by (simp add: sum_of_products_def)
qed

lemma process_portfolio_data_Inr:
  assumes "process_portfolio_data all_stocks = Inr (portfolio, summary)"
  shows "portfolio = map (\<lambda>s. stock_data s
             (fmul (fsub (current_price s) (buy_price s)) (Fin (round_fin (of_int (quantity s))))))
           all_stocks \<and>
         summary =
           (if all_stocks = [] then
              [''total_investment'' \<mapsto> PInt 0, ''total_current_value'' \<mapsto> PInt 0,
               ''total_profit_loss'' \<mapsto> PInt 0]
            else
              [''total_investment'' \<mapsto>
                 PFloat (float_round2 (sum_of_products buy_price all_stocks)),
               ''total_current_value'' \<mapsto>
                 PFloat (float_round2 (sum_of_products current_price all_stocks)),
               ''total_profit_loss'' \<mapsto>
                 PFloat (float_round2 (fsub (sum_of_products current_price all_stocks)
                                            (sum_of_products buy_price all_stocks)))])"
proof -
  from assms obtain ti tcv tpl
    where l: "portfolio_loop all_stocks ([], PInt 0, PInt 0) = Inr (portfolio, ti, tcv)"
      and s: "num_sub tcv ti = Inr tpl"
      and m: "summary = [''total_investment'' \<mapsto> round2 ti,
                ''total_current_value'' \<mapsto> round2 tcv,
                ''total_profit_loss'' \<mapsto> round2 tpl]"
    by (auto simp: process_portfolio_data_def split: sum.splits)
  note t = portfolio_loop_start[OF l]
  show ?thesis
  proof (cases "all_stocks = []")
    case True
    then show ?thesis using t s m by auto
  next
    case False
    then show ?thesis using t s m by auto
  qed
qed

lemma float_round2_cents:
  "\<exists>n. float_round2 (Fin x) = round_double (of_int n / 100) \<and> \<bar>of_int n / 100 - x\<bar> \<le> 1 / 200"
  using cents_near[of x] by (intro exI[of _ "rne (x * 100)"]) simp

text \<open>
  Claim C5. When \<open>process_portfolio_data\<close> returns, the list has one dictionary per position,
  in order, and the dictionary of position \<open>i\<close> holds under \<open>profit_loss\<close> the float
  \<open>round((current_price - buy_price) * quantity, 2)\<close>: the difference and the product with
  the quantity converted to a float are rounded to binary64. The function returns when
  every quantity converts to a float. \<open>round(x, 2)\<close> of a finite float \<open>x\<close> is the float
  nearest to a decimal \<open>n / 100\<close> that is within half a cent of \<open>x\<close>.
\<close>

theorem profit_loss_per_position:
  "(process_portfolio_data all_stocks = Inr (portfolio, summary) \<longrightarrow>
      length portfolio = length all_stocks \<and>
      (\<forall>i < length all_stocks.
         (portfolio ! i) ''profit_loss'' =
           Some (Num (PFloat (float_round2
             (fmul (fsub (current_price (all_stocks ! i)) (buy_price (all_stocks ! i)))
                   (Fin (round_fin (of_int (quantity (all_stocks ! i))))))))))) \<and>
   ((\<forall>s \<in> set all_stocks. \<bar>quantity s\<bar> < 2 ^ 1024 - 2 ^ 970) \<longrightarrow>
      (\<exists>p sm. process_portfolio_data all_stocks = Inr (p, sm))) \<and>
   (\<exists>n. float_round2 (Fin x) = round_double (of_int n / 100) \<and>
        \<bar>of_int n / 100 - x\<bar> \<le> 1 / 200)"
proof (intro conjI impI)
  assume a: "process_portfolio_data all_stocks = Inr (portfolio, summary)"
  note p = process_portfolio_data_Inr[OF a, THEN conjunct1]
  show "length portfolio = length all_stocks" by (simp add: p)
  show "\<forall>i < length all_stocks.
         (portfolio ! i) ''profit_loss'' =
           Some (Num (PFloat (float_round2
             (fmul (fsub (current_price (all_stocks ! i)) (buy_price (all_stocks ! i)))
                   (Fin (round_fin (of_int (quantity (all_stocks ! i)))))))))"
    by (simp add: p stock_data_def del: float_round2.simps)
next
  assume "\<forall>s \<in> set all_stocks. \<bar>quantity s\<bar> < 2 ^ 1024 - 2 ^ 970"
  then show "\<exists>p sm. process_portfolio_data all_stocks = Inr (p, sm)"
    by (rule process_portfolio_data_returns)
next
  show "\<exists>n. float_round2 (Fin x) = round_double (of_int n / 100) \<and>
        \<bar>of_int n / 100 - x\<bar> \<le> 1 / 200"
    by (rule float_round2_cents)
qed

text \<open>
  Claim C6. When \<open>process_portfolio_data\<close> returns, the summary holds \<open>round(., 2)\<close> of the sum
  of \<open>quantity * buy_price\<close>, of the sum of \<open>quantity * current_price\<close>, and of the difference
  of the two unrounded sums; the sums are accumulated in float arithmetic in list order
  from zero. For an empty list the three totals are the integer zero. The function returns
  when every quantity converts to a float. \<open>round(x, 2)\<close> of a finite float \<open>x\<close> is the float
  nearest to a decimal \<open>n / 100\<close> that is within half a cent of \<open>x\<close>.
\<close>

theorem portfolio_totals:
  "(process_portfolio_data all_stocks = Inr (portfolio, summary) \<longrightarrow>
      summary =
        (if all_stocks = [] then
           [''total_investment'' \<mapsto> PInt 0, ''total_current_value'' \<mapsto> PInt 0,
            ''total_profit_loss'' \<mapsto> PInt 0]
         else
           [''total_investment'' \<mapsto>
              PFloat (float_round2 (sum_of_products buy_price all_stocks)),
            ''total_current_value'' \<mapsto>
              PFloat (float_round2 (sum_of_products current_price all_stocks)),
            ''total_profit_loss'' \<mapsto>
              PFloat (float_round2 (fsub (sum_of_products current_price all_stocks)
                                         (sum_of_products buy_price all_stocks)))])) \<and>
   ((\<forall>s \<in> set all_stocks. \<bar>quantity s\<bar> < 2 ^ 1024 - 2 ^ 970) \<longrightarrow>
      (\<exists>p sm. process_portfolio_data all_stocks = Inr (p, sm))) \<and>
   (\<exists>n. float_round2 (Fin x) = round_double (of_int n / 100) \<and>
        \<bar>of_int n / 100 - x\<bar> \<le> 1 / 200)"
proof (intro conjI impI)
  assume a: "process_portfolio_data all_stocks = Inr (portfolio, summary)"
  show "summary =
        (if all_stocks = [] then
           [''total_investment'' \<mapsto> PInt 0, ''total_current_value'' \<mapsto> PInt 0,
            ''total_profit_loss'' \<mapsto> PInt 0]
         else
           [''total_investment'' \<mapsto>
              PFloat (float_round2 (sum_of_products buy_price all_stocks)),
            ''total_current_value'' \<mapsto>
              PFloat (float_round2 (sum_of_products current_price all_stocks)),
            ''total_profit_loss'' \<mapsto>
              PFloat (float_round2 (fsub (sum_of_products current_price all_stocks)
                                         (sum_of_products buy_price all_stocks)))])"
    by (rule process_portfolio_data_Inr[OF a, THEN conjunct2])
next
  assume "\<forall>s \<in> set all_stocks. \<bar>quantity s\<bar> < 2 ^ 1024 - 2 ^ 970"
  then show "\<exists>p sm. process_portfolio_data all_stocks = Inr (p, sm)"
    by (rule process_portfolio_data_returns)
next
  show "\<exists>n. float_round2 (Fin x) = round_double (of_int n / 100) \<and>
        \<bar>of_int n / 100 - x\<bar> \<le> 1 / 200"
    by (rule float_round2_cents)
qed

text \<open>
  A portfolio of two positions: three shares bought at 0.064 and now at 0.126 (the nearest
  floats), and ten shares bought at 100 and now at 120. Every sum and every rounding to two
  decimals of the first position and of the totals is inexact.
\<close>

lemma mixed_diff_a: "fsub (Fin (1134907106097365 / 9007199254740992)) (Fin (1152921504606847 / 18014398509481984)) = Fin (1116892707587883 / 18014398509481984)"
proof -
  have "round_fin ((1134907106097365 / 9007199254740992) + - (1152921504606847 / 18014398509481984)) = of_int 8935141660703064 * 2 powi (-57)"
    by (rule round_fin_eqI) simp_all
  then show ?thesis unfolding fsub_def fneg.simps fadd.simps by (intro round_double_eqI) simp_all
qed

lemma mixed_profit_a: "fmul (Fin (1116892707587883 / 18014398509481984)) (Fin 3) = Fin (3350678122763649 / 18014398509481984)"
proof -
  have "round_fin ((1116892707587883 / 18014398509481984) * 3) = of_int 6701356245527298 * 2 powi (-55)"
    by (rule round_fin_eqI) simp_all
  then show ?thesis unfolding fmul.simps by (intro round_double_eqI) simp_all
qed

lemma mixed_investment_a: "fmul (Fin 3) (Fin (1152921504606847 / 18014398509481984)) = Fin (3458764513820541 / 18014398509481984)"
proof -
  have "round_fin (3 * (1152921504606847 / 18014398509481984)) = of_int 6917529027641082 * 2 powi (-55)"
    by (rule round_fin_eqI) simp_all
  then show ?thesis unfolding fmul.simps by (intro round_double_eqI) simp_all
qed

lemma mixed_value_a: "fmul (Fin 3) (Fin (1134907106097365 / 9007199254740992)) = Fin (3404721318292095 / 9007199254740992)"
proof -
  have "round_fin (3 * (1134907106097365 / 9007199254740992)) = of_int 6809442636584190 * 2 powi (-54)"
    by (rule round_fin_eqI) simp_all
  then show ?thesis unfolding fmul.simps by (intro round_double_eqI) simp_all
qed

lemma mixed_diff_b: "fsub (Fin 120) (Fin 100) = Fin 20"
proof -
  have "round_fin (120 + - 100) = of_int 5629499534213120 * 2 powi (-48)"
    by (rule round_fin_eqI) simp_all
  then show ?thesis unfolding fsub_def fneg.simps fadd.simps by (intro round_double_eqI) simp_all
qed

lemma mixed_profit_b: "fmul (Fin 20) (Fin 10) = Fin 200"
proof -
  have "round_fin (20 * 10) = of_int 7036874417766400 * 2 powi (-45)"
    by (rule round_fin_eqI) simp_all
  then show ?thesis unfolding fmul.simps by (intro round_double_eqI) simp_all
qed

lemma mixed_investment_b: "fmul (Fin 10) (Fin 100) = Fin 1000"
proof -
  have "round_fin (10 * 100) = of_int 8796093022208000 * 2 powi (-43)"
    by (rule round_fin_eqI) simp_all
  then show ?thesis unfolding fmul.simps by (intro round_double_eqI) simp_all
qed

lemma mixed_value_b: "fmul (Fin 10) (Fin 120) = Fin 1200"
proof -
  have "round_fin (10 * 120) = of_int 5277655813324800 * 2 powi (-42)"
    by (rule round_fin_eqI) simp_all
  then show ?thesis unfolding fmul.simps by (intro round_double_eqI) simp_all
qed

lemma mixed_total_investment: "fadd (Fin (3458764513820541 / 18014398509481984)) (Fin 1000) = Fin (1099722734008533 / 1099511627776)"
proof -
  have "round_fin ((3458764513820541 / 18014398509481984) + 1000) = of_int 8797781872068264 * 2 powi (-43)"
    by (rule round_fin_eqI) simp_all
  then show ?thesis unfolding fadd.simps by (intro round_double_eqI) simp_all
qed

lemma mixed_total_value: "fadd (Fin (3404721318292095 / 9007199254740992)) (Fin 1200) = Fin (5279318274905997 / 4398046511104)"
proof -
  have "round_fin ((3404721318292095 / 9007199254740992) + 1200) = of_int 5279318274905997 * 2 powi (-42)"
    by (rule round_fin_eqI) simp_all
  then show ?thesis unfolding fadd.simps by (intro round_double_eqI) simp_all
qed

lemma mixed_total_profit: "fsub (Fin (5279318274905997 / 4398046511104)) (Fin (1099722734008533 / 1099511627776)) = Fin (880427338871865 / 4398046511104)"
proof -
  have "round_fin ((5279318274905997 / 4398046511104) + - (1099722734008533 / 1099511627776)) = of_int 7043418710974920 * 2 powi (-45)"
    by (rule round_fin_eqI) simp_all
  then show ?thesis unfolding fsub_def fneg.simps fadd.simps by (intro round_double_eqI) simp_all
qed

lemma mixed_investment_a_double: "is_double (3458764513820541 / 18014398509481984)"
  using is_double_scaled_int[of 3458764513820541 "-54"] by simp

lemma mixed_value_a_double: "is_double (3404721318292095 / 9007199254740992)"
  using is_double_scaled_int[of 3404721318292095 "-53"] by simp

lemma mixed_round_profit_a: "float_round2 (Fin (3350678122763649 / 18014398509481984)) = Fin (3422735716801577 / 18014398509481984)"
proof -
  have r: "rne ((3350678122763649 / 18014398509481984) * 100) = 19" by (rule rne_eqI) simp
  have "round_fin (of_int 19 / 100) = of_int 6845471433603154 * 2 powi (-55)"
    by (rule round_fin_eqI) simp_all
  then have "round_double (of_int 19 / 100) = Fin (3422735716801577 / 18014398509481984)" by (intro round_double_eqI) simp_all
  then show ?thesis unfolding float_round2.simps r .
qed

lemma mixed_round_profit_b: "float_round2 (Fin 200) = Fin 200"
proof -
  have r: "rne (200 * 100) = 20000" by (rule rne_eqI) simp
  have "round_fin (of_int 20000 / 100) = of_int 7036874417766400 * 2 powi (-45)"
    by (rule round_fin_eqI) simp_all
  then have "round_double (of_int 20000 / 100) = Fin 200" by (intro round_double_eqI) simp_all
  then show ?thesis unfolding float_round2.simps r .
qed

lemma mixed_round_total_investment: "float_round2 (Fin (1099722734008533 / 1099511627776)) = Fin (2199441069970555 / 2199023255552)"
proof -
  have r: "rne ((1099722734008533 / 1099511627776) * 100) = 100019" by (rule rne_eqI) simp
  have "round_fin (of_int 100019 / 100) = of_int 8797764279882220 * 2 powi (-43)"
    by (rule round_fin_eqI) simp_all
  then have "round_double (of_int 100019 / 100) = Fin (2199441069970555 / 2199023255552)" by (intro round_double_eqI) simp_all
  then show ?thesis unfolding float_round2.simps r .
qed

lemma mixed_round_total_value: "float_round2 (Fin (5279318274905997 / 4398046511104)) = Fin (1319831767749755 / 1099511627776)"
proof -
  have r: "rne ((5279318274905997 / 4398046511104) * 100) = 120038" by (rule rne_eqI) simp
  have "round_fin (of_int 120038 / 100) = of_int 5279327070999020 * 2 powi (-42)"
    by (rule round_fin_eqI) simp_all
  then have "round_double (of_int 120038 / 100) = Fin (1319831767749755 / 1099511627776)" by (intro round_double_eqI) simp_all
  then show ?thesis unfolding float_round2.simps r .
qed

lemma mixed_round_total_profit: "float_round2 (Fin (880427338871865 / 4398046511104)) = Fin (3521779724231639 / 17592186044416)"
proof -
  have r: "rne ((880427338871865 / 4398046511104) * 100) = 20019" by (rule rne_eqI) simp
  have "round_fin (of_int 20019 / 100) = of_int 7043559448463278 * 2 powi (-45)"
    by (rule round_fin_eqI) simp_all
  then have "round_double (of_int 20019 / 100) = Fin (3521779724231639 / 17592186044416)" by (intro round_double_eqI) simp_all
  then show ?thesis unfolding float_round2.simps r .
qed


lemma fadd_zero_left: "valid_float x \<Longrightarrow> fadd (Fin 0) x = x"
  by (cases x) (simp_all add: round_double_exact)

lemmas mixed_eval =
      mixed_diff_a mixed_profit_a mixed_investment_a mixed_value_a mixed_diff_b mixed_profit_b
      mixed_investment_b mixed_value_b mixed_total_investment mixed_total_value mixed_total_profit
      mixed_investment_a_double mixed_value_a_double mixed_round_profit_a mixed_round_profit_b
      mixed_round_total_investment mixed_round_total_value mixed_round_total_profit

lemma mixed_portfolio:
  "process_portfolio_data
     [\<lparr>stock_id = 1, stock_name = ''ACME'', quantity = 3,
       buy_price = Fin (1152921504606847 / 18014398509481984),
       current_price = Fin (1134907106097365 / 9007199254740992), user_id = 7\<rparr>,
      \<lparr>stock_id = 2, stock_name = ''BOLT'', quantity = 10, buy_price = Fin 100,
       current_price = Fin 120, user_id = 7\<rparr>] =
   Inr ([stock_data \<lparr>stock_id = 1, stock_name = ''ACME'', quantity = 3,
       buy_price = Fin (1152921504606847 / 18014398509481984),
       current_price = Fin (1134907106097365 / 9007199254740992), user_id = 7\<rparr>
       (Fin (3350678122763649 / 18014398509481984)),
      stock_data \<lparr>stock_id = 2, stock_name = ''BOLT'', quantity = 10, buy_price = Fin 100,
       current_price = Fin 120, user_id = 7\<rparr>
       (Fin 200)],
     [''total_investment'' \<mapsto> PFloat (Fin (2199441069970555 / 2199023255552)),
      ''total_current_value'' \<mapsto> PFloat (Fin (1319831767749755 / 1099511627776)),
      ''total_profit_loss'' \<mapsto> PFloat (Fin (3521779724231639 / 17592186044416))])"
  by (simp add: process_portfolio_data_def portfolio_step_def float_mul_int_def
      int_mul_float_def int_to_float_small fadd_zero_left mixed_eval
      del: float_round2.simps fmul.simps fadd.simps)

lemma mixed_sums:
  "sum_of_products buy_price
     [\<lparr>stock_id = 1, stock_name = ''ACME'', quantity = 3,
       buy_price = Fin (1152921504606847 / 18014398509481984),
       current_price = Fin (1134907106097365 / 9007199254740992), user_id = 7\<rparr>,
      \<lparr>stock_id = 2, stock_name = ''BOLT'', quantity = 10, buy_price = Fin 100,
       current_price = Fin 120, user_id = 7\<rparr>] = Fin (1099722734008533 / 1099511627776)"
  "sum_of_products current_price
     [\<lparr>stock_id = 1, stock_name = ''ACME'', quantity = 3,
       buy_price = Fin (1152921504606847 / 18014398509481984),
       current_price = Fin (1134907106097365 / 9007199254740992), user_id = 7\<rparr>,
      \<lparr>stock_id = 2, stock_name = ''BOLT'', quantity = 10, buy_price = Fin 100,
       current_price = Fin 120, user_id = 7\<rparr>] = Fin (5279318274905997 / 4398046511104)"
  by (simp_all add: sum_of_products_def round_fin_numeral fadd_zero_left mixed_eval
      del: fmul.simps fadd.simps)

theorem profit_loss_per_position_witness:
  "process_portfolio_data
     [\<lparr>stock_id = 1, stock_name = ''ACME'', quantity = 3,
       buy_price = Fin (1152921504606847 / 18014398509481984),
       current_price = Fin (1134907106097365 / 9007199254740992), user_id = 7\<rparr>,
      \<lparr>stock_id = 2, stock_name = ''BOLT'', quantity = 10, buy_price = Fin 100,
       current_price = Fin 120, user_id = 7\<rparr>] =
   Inr ([stock_data \<lparr>stock_id = 1, stock_name = ''ACME'', quantity = 3,
       buy_price = Fin (1152921504606847 / 18014398509481984),
       current_price = Fin (1134907106097365 / 9007199254740992), user_id = 7\<rparr>
       (Fin (3350678122763649 / 18014398509481984)),
      stock_data \<lparr>stock_id = 2, stock_name = ''BOLT'', quantity = 10, buy_price = Fin 100,
       current_price = Fin 120, user_id = 7\<rparr>
       (Fin 200)],
     [''total_investment'' \<mapsto> PFloat (Fin (2199441069970555 / 2199023255552)),
      ''total_current_value'' \<mapsto> PFloat (Fin (1319831767749755 / 1099511627776)),
      ''total_profit_loss'' \<mapsto> PFloat (Fin (3521779724231639 / 17592186044416))]) \<and>
   (stock_data \<lparr>stock_id = 1, stock_name = ''ACME'', quantity = 3,
       buy_price = Fin (1152921504606847 / 18014398509481984),
       current_price = Fin (1134907106097365 / 9007199254740992), user_id = 7\<rparr>
       (Fin (3350678122763649 / 18014398509481984))) ''profit_loss'' =
     Some (Num (PFloat (Fin (3422735716801577 / 18014398509481984)))) \<and>
   fmul (fsub (Fin (1134907106097365 / 9007199254740992))
              (Fin (1152921504606847 / 18014398509481984))) (Fin 3) =
     Fin (3350678122763649 / 18014398509481984) \<and>
   float_round2 (Fin (3350678122763649 / 18014398509481984)) = Fin (3422735716801577 / 18014398509481984) \<and>
   (stock_data \<lparr>stock_id = 2, stock_name = ''BOLT'', quantity = 10, buy_price = Fin 100,
       current_price = Fin 120, user_id = 7\<rparr>
       (Fin 200)) ''profit_loss'' = Some (Num (PFloat (Fin 200))) \<and>
   fmul (fsub (Fin 120) (Fin 100)) (Fin 10) = Fin 200 \<and> float_round2 (Fin 200) = Fin 200"
proof -
  note t = profit_loss_per_position[THEN conjunct1, THEN mp, OF mixed_portfolio]
  have 0: "(stock_data \<lparr>stock_id = 1, stock_name = ''ACME'', quantity = 3,
       buy_price = Fin (1152921504606847 / 18014398509481984),
       current_price = Fin (1134907106097365 / 9007199254740992), user_id = 7\<rparr>
       (Fin (3350678122763649 / 18014398509481984))) ''profit_loss'' =
     Some (Num (PFloat (Fin (3422735716801577 / 18014398509481984))))"
    using t[THEN conjunct2, rule_format, of 0]
    by (simp add: round_fin_numeral mixed_eval del: float_round2.simps fmul.simps fadd.simps)
  have 1: "(stock_data \<lparr>stock_id = 2, stock_name = ''BOLT'', quantity = 10, buy_price = Fin 100,
       current_price = Fin 120, user_id = 7\<rparr>
       (Fin 200)) ''profit_loss'' = Some (Num (PFloat (Fin 200)))"
    using t[THEN conjunct2, rule_format, of 1]
    by (simp add: round_fin_numeral mixed_eval del: float_round2.simps fmul.simps fadd.simps)
  show ?thesis using 0 1 mixed_portfolio
    by (simp add: mixed_eval del: float_round2.simps fmul.simps fadd.simps)
qed

theorem portfolio_totals_witness:
  "process_portfolio_data
     [\<lparr>stock_id = 1, stock_name = ''ACME'', quantity = 3,
       buy_price = Fin (1152921504606847 / 18014398509481984),
       current_price = Fin (1134907106097365 / 9007199254740992), user_id = 7\<rparr>,
      \<lparr>stock_id = 2, stock_name = ''BOLT'', quantity = 10, buy_price = Fin 100,
       current_price = Fin 120, user_id = 7\<rparr>] =
   Inr ([stock_data \<lparr>stock_id = 1, stock_name = ''ACME'', quantity = 3,
       buy_price = Fin (1152921504606847 / 18014398509481984),
       current_price = Fin (1134907106097365 / 9007199254740992), user_id = 7\<rparr>
       (Fin (3350678122763649 / 18014398509481984)),
      stock_data \<lparr>stock_id = 2, stock_name = ''BOLT'', quantity = 10, buy_price = Fin 100,
       current_price = Fin 120, user_id = 7\<rparr>
       (Fin 200)],
     [''total_investment'' \<mapsto> PFloat (Fin (2199441069970555 / 2199023255552)),
      ''total_current_value'' \<mapsto> PFloat (Fin (1319831767749755 / 1099511627776)),
      ''total_profit_loss'' \<mapsto> PFloat (Fin (3521779724231639 / 17592186044416))]) \<and>
   sum_of_products buy_price
     [\<lparr>stock_id = 1, stock_name = ''ACME'', quantity = 3,
       buy_price = Fin (1152921504606847 / 18014398509481984),
       current_price = Fin (1134907106097365 / 9007199254740992), user_id = 7\<rparr>,
      \<lparr>stock_id = 2, stock_name = ''BOLT'', quantity = 10, buy_price = Fin 100,
       current_price = Fin 120, user_id = 7\<rparr>] = Fin (1099722734008533 / 1099511627776) \<and>
   sum_of_products current_price
     [\<lparr>stock_id = 1, stock_name = ''ACME'', quantity = 3,
       buy_price = Fin (1152921504606847 / 18014398509481984),
       current_price = Fin (1134907106097365 / 9007199254740992), user_id = 7\<rparr>,
      \<lparr>stock_id = 2, stock_name = ''BOLT'', quantity = 10, buy_price = Fin 100,
       current_price = Fin 120, user_id = 7\<rparr>] = Fin (5279318274905997 / 4398046511104) \<and>
   fsub (Fin (5279318274905997 / 4398046511104)) (Fin (1099722734008533 / 1099511627776)) = Fin (880427338871865 / 4398046511104) \<and>
   float_round2 (Fin (1099722734008533 / 1099511627776)) = Fin (2199441069970555 / 2199023255552) \<and>
   float_round2 (Fin (5279318274905997 / 4398046511104)) = Fin (1319831767749755 / 1099511627776) \<and>
   float_round2 (Fin (880427338871865 / 4398046511104)) = Fin (3521779724231639 / 17592186044416) \<and>
   process_portfolio_data [] =
     Inr ([], [''total_investment'' \<mapsto> PInt 0, ''total_current_value'' \<mapsto> PInt 0,
               ''total_profit_loss'' \<mapsto> PInt 0])"
proof -
  have e: "\<exists>p sm. process_portfolio_data [] = Inr (p, sm)"
    using portfolio_totals[of "[]", THEN conjunct2, THEN conjunct1] by simp
  then obtain p sm where pe: "process_portfolio_data [] = Inr (p, sm)" by blast
  have "p = []" using pe by (simp add: process_portfolio_data_def)
  moreover have "sm = [''total_investment'' \<mapsto> PInt 0, ''total_current_value'' \<mapsto> PInt 0,
               ''total_profit_loss'' \<mapsto> PInt 0]"
    using portfolio_totals[of "[]" p sm, THEN conjunct1] pe by simp
  ultimately have empty: "process_portfolio_data [] =
     Inr ([], [''total_investment'' \<mapsto> PInt 0, ''total_current_value'' \<mapsto> PInt 0,
               ''total_profit_loss'' \<mapsto> PInt 0])"
    using pe by simp
  note t = portfolio_totals[THEN conjunct1, THEN mp, OF mixed_portfolio]
  show ?thesis using t mixed_portfolio mixed_sums empty
    by (simp add: mixed_eval del: float_round2.simps fmul.simps fadd.simps)
qed

section \<open>The sign of the result of the solver\<close>

lemma round_double_PInf:
  assumes "2 ^ 1024 - 2 ^ 970 \<le> x"
  shows "round_double x = PInf"
  using round_fin_overflow[OF assms] by (simp add: round_double_def Let_def)

text \<open>One share at \<open>2 ^ 1023\<close>, now at \<open>1 / 4\<close>, with the target \<open>1 / 2\<close>: the quotient overflows.\<close>

lemma overflow_example:
  "calculate_shares_to_buy 1 (Fin (2 ^ 1023)) (Fin (1 / 4)) (Fin (1 / 2)) = Some PInf"
proof -
  have s: "fsub (Fin (2 ^ 1023)) (Fin (1 / 2)) = Fin (2 ^ 1023)"
  proof -
    have "round_fin (2 ^ 1023 + - (1 / 2)) = of_int (2 ^ 53) * 2 powi 970"
      by (rule round_fin_eqI) simp_all
    then show ?thesis
      unfolding fsub_def fneg.simps fadd.simps by (intro round_double_eqI) simp_all
  qed
  have n: "fmul (Fin 1) (Fin (2 ^ 1023)) = Fin (2 ^ 1023)"
    using round_double_exact[OF is_double_scaled_int[of "2 ^ 52" 971]] by simp
  have d: "fsub (Fin (1 / 2)) (Fin (1 / 4)) = Fin (1 / 4)"
    using round_double_exact[OF is_double_scaled_int[of 1 "- 2"]] by (simp add: fsub_def)
  have "round_double (2 ^ 1023 / (1 / 4)) = PInf" by (rule round_double_PInf) simp
  then have q: "fdiv (Fin (2 ^ 1023)) (Fin (1 / 4)) = Inr PInf" by simp
  show ?thesis using s n d q int_to_float_small[of 1]
    by (simp add: calculate_shares_to_buy_def shares_formula_def shares_numerator_def
        shares_denominator_def int_mul_float_def fge_def
        del: fmul.simps fdiv.simps fadd.simps)
qed

text \<open>One share at 3, now at 1, with the target 2.5: the quotient is the float nearest to 1/3.\<close>

lemma fdiv_half_three_halves:
  "fdiv (Fin (1 / 2)) (Fin (3 / 2)) = Inr (Fin (6004799503160661 / 18014398509481984))"
proof -
  have "round_fin ((1 / 2) / (3 / 2)) = of_int 6004799503160661 * 2 powi (- 54)"
    by (rule round_fin_eqI) simp_all
  then have "round_double ((1 / 2) / (3 / 2)) = Fin (6004799503160661 / 18014398509481984)"
    by (intro round_double_eqI) simp_all
  then show ?thesis by simp
qed

lemma third_example:
  "calculate_shares_to_buy 1 (Fin 3) (Fin 1) (Fin (5 / 2)) =
     Some (Fin (6004799503160661 / 18014398509481984))"
proof -
  have s: "fsub (Fin 3) (Fin (5 / 2)) = Fin (1 / 2)"
    using round_double_exact[OF is_double_scaled_int[of 1 "- 1"]] by (simp add: fsub_def)
  have n: "fmul (Fin 1) (Fin (1 / 2)) = Fin (1 / 2)"
    using round_double_exact[OF is_double_scaled_int[of 1 "- 1"]] by simp
  have d: "fsub (Fin (5 / 2)) (Fin 1) = Fin (3 / 2)"
    using round_double_exact[OF is_double_scaled_int[of 3 "- 1"]] by (simp add: fsub_def)
  show ?thesis using s n d fdiv_half_three_halves int_to_float_small[of 1]
    by (simp add: calculate_shares_to_buy_def shares_formula_def shares_numerator_def
        shares_denominator_def int_mul_float_def fge_def
        del: fmul.simps fdiv.simps fadd.simps)
qed

lemma is_double_5_2: "is_double (5 / 2)"
  using is_double_scaled_int[of 5 "- 1"] by simp

text \<open>
  Claim C10. For \<open>q1 > 0\<close> and \<open>0 < p2 < p_target < p1\<close> every float returned is strictly
  positive: it is \<open>+inf\<close>, or a finite float that is at least \<open>2 ^ -53\<close> and whose ceiling is a
  whole number of at least one. A float is returned when \<open>q1 < 2 ^ 1024 - 2 ^ 970\<close>.
\<close>

theorem calculate_shares_to_buy_positive:
  assumes "valid_float p1" "valid_float p2" "valid_float p_target"
    and "0 < q1" "fgt p2 (Fin 0)" "flt p2 p_target" "flt p_target p1"
  shows "(\<forall>q2. calculate_shares_to_buy q1 p1 p2 p_target = Some q2 \<longrightarrow>
            fgt q2 (Fin 0) \<and>
            (q2 = PInf \<or> (\<exists>r. q2 = Fin r \<and> 2 powi (- 53) \<le> r \<and> 1 \<le> \<lceil>r\<rceil>))) \<and>
         (q1 < 2 ^ 1024 - 2 ^ 970 \<longrightarrow>
            (\<exists>q2. calculate_shares_to_buy q1 p1 p2 p_target = Some q2))"
proof (intro conjI allI impI)
  fix q2
  assume a: "calculate_shares_to_buy q1 p1 p2 p_target = Some q2"
  obtain b t where bt: "p2 = Fin b" "p_target = Fin t" "0 < b" "b < t"
    using assms(5,6,7) by (rule positive_price_cases)
  from a obtain f where f: "int_to_float q1 = Inr f"
    and q: "fdiv (fmul f (fsub p1 p_target)) (fsub p_target p2) = Inr q2"
    by (auto simp: calculate_shares_to_buy_def shares_formula_def shares_numerator_def
        shares_denominator_def int_mul_float_def split: if_splits sum.splits)
  define qf :: rat where "qf = round_fin (of_int q1)"
  have fq: "f = Fin qf" unfolding qf_def using f by (rule int_to_float_InrD)
  have q1: "1 \<le> qf" unfolding qf_def using assms(4) by (intro round_fin_int_ge_1) simp
  have "q2 = PInf \<or> (\<exists>r. q2 = Fin r \<and> 2 powi (- 53) \<le> r)"
    using assms(1-3) bt(3,4) assms(7) q1 q unfolding bt(1,2) fq
    by (intro shares_quotient_positive[of b t p1 qf q2]) simp_all
  then consider "q2 = PInf" | r where "q2 = Fin r" "2 powi (- 53) \<le> r" by blast
  then have "fgt q2 (Fin 0) \<and>
    (q2 = PInf \<or> (\<exists>r. q2 = Fin r \<and> 2 powi (- 53) \<le> r \<and> 1 \<le> \<lceil>r\<rceil>))"
  proof cases
    case 1
    then show ?thesis by (simp add: fgt_def)
  next
    case 2
    have "(0::rat) < 2 powi (- 53)" by simp
    then have "0 < r" using 2(2) by (rule less_le_trans)
    then have "1 \<le> \<lceil>r\<rceil>" by (simp add: le_ceiling_iff)
    then show ?thesis using 2 \<open>0 < r\<close> by (simp add: fgt_def)
  qed
  then show "fgt q2 (Fin 0)"
    and "q2 = PInf \<or> (\<exists>r. q2 = Fin r \<and> 2 powi (- 53) \<le> r \<and> 1 \<le> \<lceil>r\<rceil>)"
    by simp_all
next
  assume "q1 < 2 ^ 1024 - 2 ^ 970"
  then have c: "int_to_float q1 = Inr (Fin (round_fin (of_int q1)))"
    using assms(4) by (intro int_to_float_Inr) simp
  have g1: "\<not> fle p_target p2" using assms(6) by (rule flt_not_fle)
  have g2: "\<not> fge p_target p1" using flt_not_fle[OF assms(7)] by (simp add: fge_def)
  obtain q2 where "shares_formula q1 p1 p2 p_target = Inr q2"
    using shares_formula_Inr[OF assms(2,3) g1 c] by blast
  then show "\<exists>q2. calculate_shares_to_buy q1 p1 p2 p_target = Some q2"
    using g1 g2 by (simp add: calculate_shares_to_buy_def)
qed

theorem calculate_shares_to_buy_positive_witness:
  "valid_float (Fin 3) \<and> valid_float (Fin 1) \<and> valid_float (Fin (5 / 2)) \<and> (0::int) < 1 \<and>
   fgt (Fin 1) (Fin 0) \<and> flt (Fin 1) (Fin (5 / 2)) \<and> flt (Fin (5 / 2)) (Fin 3) \<and>
   (1::int) < 2 ^ 1024 - 2 ^ 970 \<and>
   calculate_shares_to_buy 1 (Fin 3) (Fin 1) (Fin (5 / 2)) =
     Some (Fin (6004799503160661 / 18014398509481984)) \<and>
   fgt (Fin (6004799503160661 / 18014398509481984)) (Fin 0) \<and>
   2 powi (- 53) \<le> (6004799503160661 / 18014398509481984 :: rat) \<and>
   1 \<le> \<lceil>6004799503160661 / 18014398509481984 :: rat\<rceil>"
proof -
  have v: "valid_float (Fin 3)" "valid_float (Fin 1)" "valid_float (Fin (5 / 2))"
    using is_double_int[of 1] by (simp_all add: is_double_numeral is_double_5_2)
  have c: "fgt (Fin 1) (Fin 0)" "flt (Fin 1) (Fin (5 / 2))" "flt (Fin (5 / 2)) (Fin 3)"
    by (simp_all add: fgt_def)
  note t = calculate_shares_to_buy_positive[OF v(1,2,3) _ c, of 1, THEN conjunct1,
      rule_format, OF _ third_example]
  have "fgt (Fin (6004799503160661 / 18014398509481984)) (Fin 0) \<and>
    2 powi (- 53) \<le> (6004799503160661 / 18014398509481984 :: rat) \<and>
    1 \<le> \<lceil>6004799503160661 / 18014398509481984 :: rat\<rceil>"
    using t by simp
  then show ?thesis using v c third_example by simp
qed

theorem calculate_shares_to_buy_positive_counterexample:
  "(0::int) < 1 \<and> fgt (Fin (2 ^ 1023)) (Fin 0) \<and> fgt (Fin (1 / 4)) (Fin 0) \<and>
   flt (Fin (1 / 4)) (Fin (1 / 2)) \<and> flt (Fin (1 / 2)) (Fin (2 ^ 1023)) \<and>
   calculate_shares_to_buy 1 (Fin (2 ^ 1023)) (Fin (1 / 4)) (Fin (1 / 2)) = Some PInf \<and>
   \<not> is_finite PInf"
  using overflow_example by (simp add: fgt_def)

section \<open>The tolerance of the rounded totals\<close>

text \<open>Rounding three amounts to cents, when the third is the float difference of the first
  two: the rounded amounts satisfy the identity up to one cent and the conversion errors.\<close>

lemma rounded_totals_tolerance:
  fixes i c :: rat and k :: int
  assumes "\<bar>i\<bar> \<le> 2 powi k" "\<bar>c\<bar> \<le> 2 powi k" "0 \<le> k"
  defines "D \<equiv> round_fin (c - i)"
  defines "a \<equiv> round_fin (of_int (rne (i * 100)) / 100)"
  defines "b \<equiv> round_fin (of_int (rne (c * 100)) / 100)"
  defines "e \<equiv> round_fin (of_int (rne (D * 100)) / 100)"
  shows "\<bar>e - (b - a)\<bar> \<le> 1 / 100 + 2 powi (k - 50)"
    and "\<bar>c - i\<bar> < 2 powi (k + 2)"
    and "\<bar>of_int (rne (i * 100)) / 100 :: rat\<bar> < 2 powi (k + 1)"
    and "\<bar>of_int (rne (c * 100)) / 100 :: rat\<bar> < 2 powi (k + 1)"
    and "\<bar>of_int (rne (D * 100)) / 100 :: rat\<bar> < 2 powi (k + 2)"
proof -
  define t :: rat where "t = 2 powi (k - 53)"
  have tpos: "0 < t" by (simp add: t_def)
  have t1: "2 powi (k - 52) = 2 * t" using power_int_add[of "2::rat" "k - 53" 1] by (simp add: t_def)
  have t3: "2 powi (k - 50) = 8 * t" using power_int_add[of "2::rat" "k - 53" 3] by (simp add: t_def)
  have k1: "(2::rat) powi (k + 1) = 2 * 2 powi k" by (rule powi2_step)
  have k2: "(2::rat) powi (k + 2) = 4 * 2 powi k" using power_int_add[of "2::rat" k 2] by simp
  have one: "(1::rat) \<le> 2 powi k" using assms(3) by simp
  have "k - 52 \<le> k" by simp
  then have "(2::rat) powi (k - 52) \<le> 2 powi k" by (simp only: powi2_le_iff)
  then have tk: "2 * t \<le> 2 powi k" by (simp add: t1)
  \<comment> \<open>the float difference of the unrounded totals\<close>
  show cl: "\<bar>c - i\<bar> < 2 powi (k + 2)" using assms(1,2) one unfolding k2 by linarith
  then have "\<bar>D - (c - i)\<bar> \<le> 2 powi (k + 2 - 54)"
    unfolding D_def using assms(3) by (intro round_fin_error_below) simp_all
  then have dD: "\<bar>D - (c - i)\<bar> \<le> 2 * t" by (simp add: t1)
  \<comment> \<open>the three amounts in cents\<close>
  define da :: rat where "da = of_int (rne (i * 100)) / 100"
  define db :: rat where "db = of_int (rne (c * 100)) / 100"
  define dd :: rat where "dd = of_int (rne (D * 100)) / 100"
  have na: "\<bar>da - i\<bar> \<le> 1 / 200" unfolding da_def by (rule cents_near)
  have nb: "\<bar>db - c\<bar> \<le> 1 / 200" unfolding db_def by (rule cents_near)
  have nd: "\<bar>dd - D\<bar> \<le> 1 / 200" unfolding dd_def by (rule cents_near)
  have la: "\<bar>da\<bar> < 2 powi (k + 1)" using na assms(1) one unfolding k1 by linarith
  have lb: "\<bar>db\<bar> < 2 powi (k + 1)" using nb assms(2) one unfolding k1 by linarith
  have lD: "\<bar>D\<bar> \<le> 3 * 2 powi k" using dD tk assms(1,2) by linarith
  have ld: "\<bar>dd\<bar> < 2 powi (k + 2)" using nd lD one unfolding k2 by linarith
  show "\<bar>of_int (rne (i * 100)) / 100 :: rat\<bar> < 2 powi (k + 1)" using la by (simp add: da_def)
  show "\<bar>of_int (rne (c * 100)) / 100 :: rat\<bar> < 2 powi (k + 1)" using lb by (simp add: db_def)
  show "\<bar>of_int (rne (D * 100)) / 100 :: rat\<bar> < 2 powi (k + 2)" using ld by (simp add: dd_def)
  have cents: "\<bar>dd - (db - da)\<bar> \<le> 1 / 100 + 4 * t"
  proof (cases "k \<le> 44")
    case True
    then have "k - 52 \<le> - 8" by simp
    then have "(2::rat) powi (k - 52) \<le> 2 powi (- 8)" by (simp only: powi2_le_iff)
    then have "2 * t \<le> 1 / 256" by (simp add: t1)
    then have "\<bar>D - (c - i)\<bar> < 1 / 200" using dD by linarith
    then have "\<bar>dd - (db - da)\<bar> \<le> 1 / 100"
      unfolding dd_def db_def da_def by (rule cents_consistent)
    then show ?thesis using tpos by linarith
  next
    case False
    then have "- 8 \<le> k - 53" by simp
    then have "(2::rat) powi (- 8) \<le> 2 powi (k - 53)" by (simp only: powi2_le_iff)
    then have "1 / 256 \<le> t" by (simp add: t_def)
    moreover have "\<bar>dd - (db - da)\<bar> \<le> 3 / 200 + 2 * t" using na nb nd dD by linarith
    ultimately show ?thesis by linarith
  qed
  \<comment> \<open>conversion of the cents back to floats\<close>
  have "\<bar>a - da\<bar> \<le> 2 powi (k + 1 - 54)"
    unfolding a_def da_def[symmetric] using la assms(3) by (intro round_fin_error_below) simp_all
  then have ea: "\<bar>a - da\<bar> \<le> t" by (simp add: t_def)
  have "\<bar>b - db\<bar> \<le> 2 powi (k + 1 - 54)"
    unfolding b_def db_def[symmetric] using lb assms(3) by (intro round_fin_error_below) simp_all
  then have eb: "\<bar>b - db\<bar> \<le> t" by (simp add: t_def)
  have "\<bar>e - dd\<bar> \<le> 2 powi (k + 2 - 54)"
    unfolding e_def dd_def[symmetric] using ld assms(3) by (intro round_fin_error_below) simp_all
  then have ee: "\<bar>e - dd\<bar> \<le> 2 * t" by (simp add: t1)
  show "\<bar>e - (b - a)\<bar> \<le> 1 / 100 + 2 powi (k - 50)"
    using ea eb ee cents unfolding t3 by linarith
qed

lemma round_double_small:
  assumes "\<bar>x\<bar> < 2 powi j" "j \<le> 1023"
  shows "round_double x = Fin (round_fin x)"
proof -
  have "(2::rat) powi j \<le> 2 powi 1023" using assms(2) by (simp only: powi2_le_iff)
  then have "\<bar>x\<bar> < 2 powi 1023" using assms(1) by linarith
  then have "\<bar>x\<bar> < 2 ^ 1024 - 2 ^ 970" by simp
  then have "\<bar>round_fin x\<bar> < 2 ^ 1024" by (rule round_fin_below_max)
  then show ?thesis by (rule round_double_eqI[OF refl])
qed

lemma rounded_totals_bound:
  assumes "process_portfolio_data all_stocks = Inr (portfolio, summary)"
    and "all_stocks \<noteq> []"
    and "sum_of_products buy_price all_stocks = Fin i"
    and "sum_of_products current_price all_stocks = Fin c"
    and "\<bar>i\<bar> \<le> 2 powi k" "\<bar>c\<bar> \<le> 2 powi k" "0 \<le> k" "k \<le> 1021"
  shows "\<exists>a b e. summary ''total_investment'' = Some (PFloat (Fin a)) \<and>
           summary ''total_current_value'' = Some (PFloat (Fin b)) \<and>
           summary ''total_profit_loss'' = Some (PFloat (Fin e)) \<and>
           \<bar>e - (b - a)\<bar> \<le> 1 / 100 + 2 powi (k - 50)"
proof -
  have m: "summary =
      [''total_investment'' \<mapsto> PFloat (float_round2 (Fin i)),
       ''total_current_value'' \<mapsto> PFloat (float_round2 (Fin c)),
       ''total_profit_loss'' \<mapsto> PFloat (float_round2 (fsub (Fin c) (Fin i)))]"
    using process_portfolio_data_Inr[OF assms(1), THEN conjunct2] assms(2,3,4)
    by (simp del: float_round2.simps)
  define D where "D = round_fin (c - i)"
  define a where "a = round_fin (of_int (rne (i * 100)) / 100)"
  define b where "b = round_fin (of_int (rne (c * 100)) / 100)"
  define e where "e = round_fin (of_int (rne (D * 100)) / 100)"
  have main: "\<bar>e - (b - a)\<bar> \<le> 1 / 100 + 2 powi (k - 50)"
    unfolding e_def b_def a_def D_def by (rule rounded_totals_tolerance(1)[OF assms(5-7)])
  have t: "\<bar>c - i\<bar> < 2 powi (k + 2)"
    "\<bar>of_int (rne (i * 100)) / 100 :: rat\<bar> < 2 powi (k + 1)"
    "\<bar>of_int (rne (c * 100)) / 100 :: rat\<bar> < 2 powi (k + 1)"
    "\<bar>of_int (rne (D * 100)) / 100 :: rat\<bar> < 2 powi (k + 2)"
    unfolding D_def by (rule rounded_totals_tolerance(2-5)[OF assms(5-7)])+
  have j1: "k + 1 \<le> 1023" and j2: "k + 2 \<le> 1023" using assms(8) by simp_all
  have "round_double (c - i) = Fin D" unfolding D_def using t(1) j2 by (rule round_double_small)
  then have tpl: "fsub (Fin c) (Fin i) = Fin D" by (simp add: fsub_def)
  have ra: "round_double (of_int (rne (i * 100)) / 100) = Fin a"
    unfolding a_def using t(2) j1 by (rule round_double_small)
  have rb: "round_double (of_int (rne (c * 100)) / 100) = Fin b"
    unfolding b_def using t(3) j1 by (rule round_double_small)
  have re: "round_double (of_int (rne (D * 100)) / 100) = Fin e"
    unfolding e_def using t(4) j2 by (rule round_double_small)
  show ?thesis
    by (rule exI[of _ a], rule exI[of _ b], rule exI[of _ e])
      (simp add: m tpl ra rb re main)
qed

text \<open>
  Claim C7. For a non-empty list of positions whose unrounded totals are finite floats of
  magnitude at most \<open>2 ^ k\<close>, with \<open>0 <= k <= 1021\<close>, the function returns when every quantity
  converts to a float, and the three rounded totals of every summary returned are finite
  floats \<open>a\<close> (investment), \<open>b\<close> (current value) and \<open>e\<close> (profit or loss) with
  \<open>\<bar>e - (b - a)\<bar> <= 0.01 + 2 ^ (k - 50)\<close>, the difference taken exactly.
\<close>

theorem rounded_totals_within_tolerance:
  assumes "all_stocks \<noteq> []"
    and "sum_of_products buy_price all_stocks = Fin i"
    and "sum_of_products current_price all_stocks = Fin c"
    and "\<bar>i\<bar> \<le> 2 powi k" "\<bar>c\<bar> \<le> 2 powi k" "0 \<le> k" "k \<le> 1021"
  shows "((\<forall>s \<in> set all_stocks. \<bar>quantity s\<bar> < 2 ^ 1024 - 2 ^ 970) \<longrightarrow>
            (\<exists>p sm. process_portfolio_data all_stocks = Inr (p, sm))) \<and>
         (\<forall>portfolio summary.
            process_portfolio_data all_stocks = Inr (portfolio, summary) \<longrightarrow>
            (\<exists>a b e. summary ''total_investment'' = Some (PFloat (Fin a)) \<and>
               summary ''total_current_value'' = Some (PFloat (Fin b)) \<and>
               summary ''total_profit_loss'' = Some (PFloat (Fin e)) \<and>
               \<bar>e - (b - a)\<bar> \<le> 1 / 100 + 2 powi (k - 50)))"
proof (intro conjI allI impI)
  assume "\<forall>s \<in> set all_stocks. \<bar>quantity s\<bar> < 2 ^ 1024 - 2 ^ 970"
  then show "\<exists>p sm. process_portfolio_data all_stocks = Inr (p, sm)"
    by (rule process_portfolio_data_returns)
next
  fix portfolio summary
  assume "process_portfolio_data all_stocks = Inr (portfolio, summary)"
  then show "\<exists>a b e. summary ''total_investment'' = Some (PFloat (Fin a)) \<and>
               summary ''total_current_value'' = Some (PFloat (Fin b)) \<and>
               summary ''total_profit_loss'' = Some (PFloat (Fin e)) \<and>
               \<bar>e - (b - a)\<bar> \<le> 1 / 100 + 2 powi (k - 50)"
    using assms by (rule rounded_totals_bound)
qed

lemma tolerance_example_sums:
  "sum_of_products buy_price
     [\<lparr>stock_id = 1, stock_name = ''ACME'', quantity = 1,
       buy_price = Fin (1152921504606847 / 18014398509481984),
       current_price = Fin (1134907106097365 / 9007199254740992), user_id = 7\<rparr>] =
   Fin (1152921504606847 / 18014398509481984)"
  "sum_of_products current_price
     [\<lparr>stock_id = 1, stock_name = ''ACME'', quantity = 1,
       buy_price = Fin (1152921504606847 / 18014398509481984),
       current_price = Fin (1134907106097365 / 9007199254740992), user_id = 7\<rparr>] =
   Fin (1134907106097365 / 9007199254740992)"
  using is_double_int[of 1, unfolded is_double_def]
  by (simp_all add: sum_of_products_def round_double_exact is_double_0064 is_double_0126)

theorem rounded_totals_within_tolerance_witness:
  "process_portfolio_data
     [\<lparr>stock_id = 1, stock_name = ''ACME'', quantity = 1,
       buy_price = Fin (1152921504606847 / 18014398509481984),
       current_price = Fin (1134907106097365 / 9007199254740992), user_id = 7\<rparr>] =
   Inr ([stock_data \<lparr>stock_id = 1, stock_name = ''ACME'', quantity = 1,
       buy_price = Fin (1152921504606847 / 18014398509481984),
       current_price = Fin (1134907106097365 / 9007199254740992), user_id = 7\<rparr>
       (Fin (1116892707587883 / 18014398509481984))],
     [''total_investment'' \<mapsto> PFloat (Fin (1080863910568919 / 18014398509481984)),
      ''total_current_value'' \<mapsto> PFloat (Fin (1170935903116329 / 9007199254740992)),
      ''total_profit_loss'' \<mapsto> PFloat (Fin (1080863910568919 / 18014398509481984))]) \<and>
   \<bar>1152921504606847 / 18014398509481984 :: rat\<bar> \<le> 2 powi 0 \<and>
   \<bar>1134907106097365 / 9007199254740992 :: rat\<bar> \<le> 2 powi 0 \<and>
   \<bar>1080863910568919 / 18014398509481984 -
     (1170935903116329 / 9007199254740992 - 1080863910568919 / 18014398509481984) :: rat\<bar>
     \<le> 1 / 100 + 2 powi (0 - 50) \<and>
   \<bar>1099722734008533 / 1099511627776 :: rat\<bar> \<le> 2 powi 11 \<and>
   \<bar>5279318274905997 / 4398046511104 :: rat\<bar> \<le> 2 powi 11 \<and>
   \<bar>3521779724231639 / 17592186044416 -
     (1319831767749755 / 1099511627776 - 2199441069970555 / 2199023255552) :: rat\<bar>
     \<le> 1 / 100 + 2 powi (11 - 50)"
  using rounded_totals_within_tolerance[OF _ tolerance_example_sums, of 0,
      THEN conjunct2, rule_format, OF _ _ _ _ _ tolerance_example]
    rounded_totals_within_tolerance[OF _ mixed_sums, of 11,
      THEN conjunct2, rule_format, OF _ _ _ _ _ mixed_portfolio]
    tolerance_example
  by simp

theorem rounded_totals_within_tolerance_counterexample:
  "process_portfolio_data
     [\<lparr>stock_id = 1, stock_name = ''ACME'', quantity = 1,
       buy_price = Fin (1152921504606847 / 18014398509481984),
       current_price = Fin (1134907106097365 / 9007199254740992), user_id = 7\<rparr>] =
   Inr ([stock_data \<lparr>stock_id = 1, stock_name = ''ACME'', quantity = 1,
       buy_price = Fin (1152921504606847 / 18014398509481984),
       current_price = Fin (1134907106097365 / 9007199254740992), user_id = 7\<rparr>
       (Fin (1116892707587883 / 18014398509481984))],
     [''total_investment'' \<mapsto> PFloat (Fin (1080863910568919 / 18014398509481984)),
      ''total_current_value'' \<mapsto> PFloat (Fin (1170935903116329 / 9007199254740992)),
      ''total_profit_loss'' \<mapsto> PFloat (Fin (1080863910568919 / 18014398509481984))]) \<and>
   \<not> \<bar>1080863910568919 / 18014398509481984 -
     (1170935903116329 / 9007199254740992 - 1080863910568919 / 18014398509481984) :: rat\<bar>
     \<le> 1 / 100"
  using tolerance_example by simp

section \<open>The average cost after the purchase\<close>

text \<open>A rounding with relative error \<open>2 ^ -53\<close>, as two one-sided bounds.\<close>

lemma rel_error_bounds:
  fixes x y :: rat
  assumes "\<bar>y - x\<bar> \<le> \<bar>x\<bar> * 2 powi (- 53)" "0 \<le> x"
  shows "x * (1 - 2 powi (- 53)) \<le> y" and "y \<le> x * (1 + 2 powi (- 53))"
proof -
  have "\<bar>y - x\<bar> \<le> x * 2 powi (- 53)" using assms by simp
  then have "y - x \<le> x * 2 powi (- 53)" "x - y \<le> x * 2 powi (- 53)"
    unfolding abs_le_iff by simp_all
  then show "x * (1 - 2 powi (- 53)) \<le> y" and "y \<le> x * (1 + 2 powi (- 53))"
    by (simp_all add: algebra_simps)
qed

lemma quotient_lower:
  assumes "0 < a" "quantum a \<le> n" "0 < d" "d \<le> a"
  shows "2 powi (- 53) \<le> n / d"
proof -
  have "a < quantum a * 2 ^ 53" using assms(1) by (rule below_quantum)
  then have "d < quantum a * 2 ^ 53" using assms(4) by simp
  then have "d / 2 ^ 53 < quantum a" by (simp add: field_simps)
  then have "d / 2 ^ 53 \<le> n" using assms(2) by simp
  then have "1 / 2 ^ 53 \<le> n / d" using assms(3) by (simp add: field_simps)
  then show ?thesis by (simp add: power_int_minus_divide)
qed

text \<open>Five roundings in a row: of the quantity, of the two differences, of the product and
  of the quotient.\<close>

lemma five_roundings:
  fixes L U r d n qf s Q x1 x2 :: rat
  assumes L: "L = 1 - 2 powi (- 53)" and U: "U = 1 + 2 powi (- 53)"
    and pos: "0 < Q" "0 < x1" "0 < x2" "0 < r" "0 < d" "0 < n" "0 < qf" "0 < s"
    and qf: "Q * L \<le> qf" "qf \<le> Q * U"
    and s: "x1 * L \<le> s" "s \<le> x1 * U"
    and n: "qf * s * L \<le> n" "n \<le> qf * s * U"
    and d: "x2 * L \<le> d" "d \<le> x2 * U"
    and r: "n / d * L \<le> r" "r \<le> n / d * U"
  shows "\<bar>Q * x1 - r * x2\<bar> \<le> 6 * 2 powi (- 53) * (Q * x1)"
proof -
  have Lpos: "0 < L" and Upos: "0 < U" by (simp_all add: L U)
  have W: "0 < Q * x1" using pos by simp
  \<comment> \<open>upper bound\<close>
  have "qf * s \<le> (Q * U) * (x1 * U)" using qf(2) s(2) pos by (intro mult_mono) auto
  then have "qf * s * U \<le> (Q * U) * (x1 * U) * U" using Upos by (intro mult_right_mono) auto
  then have nU: "n \<le> Q * x1 * (U * U * U)" using n(2) by (simp add: mult_ac)
  have "r * d \<le> n * U" using r(2) pos by (simp add: field_simps)
  also have "\<dots> \<le> Q * x1 * (U * U * U) * U" using nU Upos by (intro mult_right_mono) auto
  finally have rd: "r * d \<le> Q * x1 * (U * U * U * U)" by (simp add: mult_ac)
  have "r * (x2 * L) \<le> r * d" using d(1) pos by (intro mult_left_mono) auto
  then have up1: "r * x2 * L \<le> Q * x1 * (U * U * U * U)" using rd by (simp add: mult_ac)
  have numU: "U * U * U * U \<le> (1 + 6 * 2 powi (- 53)) * L" by (simp add: L U)
  have "Q * x1 * (U * U * U * U) \<le> Q * x1 * ((1 + 6 * 2 powi (- 53)) * L)"
    using numU W by (intro mult_left_mono) auto
  then have "r * x2 * L \<le> (Q * x1 * (1 + 6 * 2 powi (- 53))) * L"
    using up1 by (simp add: mult_ac)
  then have up: "r * x2 \<le> Q * x1 * (1 + 6 * 2 powi (- 53))"
    using Lpos by (simp only: mult_le_cancel_right_pos)
  \<comment> \<open>lower bound\<close>
  have "(Q * L) * (x1 * L) \<le> qf * s" using qf(1) s(1) pos Lpos by (intro mult_mono) auto
  then have "(Q * L) * (x1 * L) * L \<le> qf * s * L" using Lpos by (intro mult_right_mono) auto
  then have nL: "Q * x1 * (L * L * L) \<le> n" using n(1) by (simp add: mult_ac)
  have "n * L \<le> r * d" using r(1) pos by (simp add: field_simps)
  moreover have "Q * x1 * (L * L * L) * L \<le> n * L" using nL Lpos by (intro mult_right_mono) auto
  ultimately have rd2: "Q * x1 * (L * L * L * L) \<le> r * d" by (simp add: mult_ac)
  have "r * d \<le> r * (x2 * U)" using d(2) pos by (intro mult_left_mono) auto
  then have lo1: "Q * x1 * (L * L * L * L) \<le> r * x2 * U" using rd2 by (simp add: mult_ac)
  have numL: "(1 - 6 * 2 powi (- 53)) * U \<le> L * L * L * L" by (simp add: L U)
  have "Q * x1 * ((1 - 6 * 2 powi (- 53)) * U) \<le> Q * x1 * (L * L * L * L)"
    using numL W by (intro mult_left_mono) auto
  then have "(Q * x1 * (1 - 6 * 2 powi (- 53))) * U \<le> r * x2 * U"
    using lo1 by (simp add: mult_ac)
  then have lo: "Q * x1 * (1 - 6 * 2 powi (- 53)) \<le> r * x2"
    using Upos by (simp only: mult_le_cancel_right_pos)
  from up lo show ?thesis unfolding abs_le_iff by (simp add: algebra_simps)
qed

lemma round_double_FinD: "round_double x = Fin y \<Longrightarrow> y = round_fin x"
  by (auto simp: round_double_def Let_def split: if_splits)

lemma grid_difference:
  assumes "is_double x" "is_double y"
  shows "\<exists>n. x - y = of_int n * 2 powi (- 1074)"
proof -
  obtain nx where nx: "x = of_int nx * 2 powi (- 1074)"
    using is_double_min_grid[OF assms(1)] by blast
  obtain ny where ny: "y = of_int ny * 2 powi (- 1074)"
    using is_double_min_grid[OF assms(2)] by blast
  have "x - y = of_int nx * 2 powi (- 1074) - of_int ny * 2 powi (- 1074)"
    using nx ny by simp
  also have "\<dots> = of_int (nx - ny) * 2 powi (- 1074)" by (simp add: algebra_simps)
  finally show ?thesis by blast
qed

lemma round_fin_difference_error:
  assumes "is_double x" "is_double y"
  shows "\<bar>round_fin (x - y) - (x - y)\<bar> \<le> \<bar>x - y\<bar> * 2 powi (- 53)"
proof -
  obtain n where "x - y = of_int n * 2 powi (- 1074)"
    using grid_difference[OF assms] by blast
  then show ?thesis by (rule round_fin_grid_error)
qed

lemma round_fin_product_error:
  "\<bar>round_fin (round_fin (of_int q) * round_fin x) - round_fin (of_int q) * round_fin x\<bar>
     \<le> \<bar>round_fin (of_int q) * round_fin x\<bar> * 2 powi (- 53)"
proof -
  obtain z where z: "round_fin (of_int q) = of_int z" using round_fin_int_integer by blast
  obtain n where n: "round_fin x = of_int n * 2 powi (- 1074)" using round_fin_on_grid by blast
  have "round_fin (of_int q) * round_fin x = of_int (z * n) * 2 powi (- 1074)"
    by (simp add: z n)
  then show ?thesis by (rule round_fin_grid_error)
qed

lemma shares_formula_error:
  assumes "is_double a" "is_double b" "is_double t"
    and "1 \<le> q1" "0 < b" "b < t" "t < a"
    and "fdiv (fmul (Fin (round_fin (of_int q1))) (fsub (Fin a) (Fin t))) (fsub (Fin t) (Fin b)) =
      Inr (Fin r)"
  shows "0 < r"
    and "\<bar>of_int q1 * (a - t) - r * (t - b)\<bar> \<le> 6 * 2 powi (- 53) * (of_int q1 * (a - t))"
proof -
  define Q :: rat where "Q = of_int q1"
  define qf where "qf = round_fin Q"
  define s where "s = round_fin (a - t)"
  define n where "n = round_fin (qf * s)"
  define d where "d = round_fin (t - b)"
  define g where "g = quantum t"
  have tpos: "0 < t" using assms(5,6) by simp
  have tlt: "t < 2 ^ 1024" using assms(3) by (rule is_double_bound)
  have gpos: "0 < g" by (simp add: g_def quantum_pos)
  have Q1: "1 \<le> Q" using assms(4) by (simp add: Q_def)
  have qf1: "1 \<le> qf" unfolding qf_def Q_def using assms(4) by (rule round_fin_int_ge_1)
  \<comment> \<open>the denominator\<close>
  have "2 powi (- 1074) \<le> d" unfolding d_def using assms(3,2,6) by (rule round_fin_sub_pos)
  moreover have "(0::rat) < 2 powi (- 1074)" by simp
  ultimately have dpos: "0 < d" by (rule less_le_trans[rotated])
  have dle: "d \<le> t" unfolding d_def using assms(3,5) by (intro round_fin_sub_le) auto
  have "\<bar>d\<bar> < 2 ^ 1024" using dpos dle tlt by simp
  then have dd: "fsub (Fin t) (Fin b) = Fin d"
    unfolding d_def by (simp add: fsub_def round_double_eqI)
  \<comment> \<open>the difference in the numerator\<close>
  have "g \<le> a - t" unfolding g_def using assms(3,1) tpos assms(7) by (rule double_gap)
  then have gs: "g \<le> s" unfolding g_def s_def using tpos tlt by (intro round_fin_ge_quantum)
  then have spos: "0 < s" using gpos by simp
  have "fsub (Fin a) (Fin t) = round_double (a - t)" by (simp add: fsub_def)
  then consider "fsub (Fin a) (Fin t) = PInf" | "fsub (Fin a) (Fin t) = Fin s"
    using round_double_pos[of "a - t"] spos unfolding s_def by auto
  then have ss: "fsub (Fin a) (Fin t) = Fin s"
  proof cases
    case 1
    then show ?thesis using assms(8) qf1 dpos
      by (simp add: dd qf_def[symmetric] Q_def[symmetric] signed_inf_def)
  qed
  \<comment> \<open>the numerator\<close>
  have "1 * g \<le> qf * s" using qf1 gs gpos by (intro mult_mono) auto
  then have gn: "g \<le> n" unfolding g_def n_def using tpos tlt
    by (intro round_fin_ge_quantum) simp_all
  then have npos: "0 < n" using gpos by simp
  consider "round_double (qf * s) = PInf" | "round_double (qf * s) = Fin n"
    using round_double_pos[of "qf * s"] npos unfolding n_def by auto
  then have nn: "round_double (qf * s) = Fin n"
  proof cases
    case 1
    then show ?thesis using assms(8) dpos
      by (simp add: dd ss qf_def[symmetric] Q_def[symmetric] signed_inf_def)
  qed
  \<comment> \<open>the quotient\<close>
  have "round_double (n / d) = Fin r"
    using assms(8) dpos by (simp add: dd ss nn qf_def[symmetric] Q_def[symmetric])
  then have r: "r = round_fin (n / d)" by (rule round_double_FinD)
  have ql: "2 powi (- 53) \<le> n / d" using tpos gn[unfolded g_def] dpos dle by (rule quotient_lower)
  have "2 powi (- 53) \<le> r" unfolding r
    using tpos tlt gn[unfolded g_def] dpos dle by (rule round_fin_quotient_pos)
  moreover have "(0::rat) < 2 powi (- 53)" by simp
  ultimately show rpos: "0 < r" by (rule less_le_trans[rotated])
  \<comment> \<open>the five relative errors\<close>
  have "(- 1022::int) \<le> 0" by simp
  then have "(2::rat) powi (- 1022) \<le> 2 powi 0" by (simp only: powi2_le_iff)
  then have "2 powi (- 1022) \<le> \<bar>Q\<bar>" using Q1 by simp
  then have "\<bar>qf - Q\<bar> \<le> \<bar>Q\<bar> * 2 powi (- 53)" unfolding qf_def by (rule round_fin_rel_error)
  then have eq: "Q * (1 - 2 powi (- 53)) \<le> qf" "qf \<le> Q * (1 + 2 powi (- 53))"
    using Q1 by (intro rel_error_bounds; simp)+
  have xpos: "0 < a - t" "0 < t - b" using assms(6,7) by simp_all
  have "\<bar>s - (a - t)\<bar> \<le> \<bar>a - t\<bar> * 2 powi (- 53)"
    unfolding s_def using assms(1,3) by (rule round_fin_difference_error)
  then have es: "(a - t) * (1 - 2 powi (- 53)) \<le> s" "s \<le> (a - t) * (1 + 2 powi (- 53))"
    using xpos(1) by (intro rel_error_bounds; simp)+
  have "\<bar>d - (t - b)\<bar> \<le> \<bar>t - b\<bar> * 2 powi (- 53)"
    unfolding d_def using assms(3,2) by (rule round_fin_difference_error)
  then have ed: "(t - b) * (1 - 2 powi (- 53)) \<le> d" "d \<le> (t - b) * (1 + 2 powi (- 53))"
    using xpos(2) by (intro rel_error_bounds; simp)+
  have qspos: "0 < qf * s" using qf1 spos by simp
  have "\<bar>n - qf * s\<bar> \<le> \<bar>qf * s\<bar> * 2 powi (- 53)"
    unfolding n_def qf_def Q_def s_def by (rule round_fin_product_error)
  then have en: "qf * s * (1 - 2 powi (- 53)) \<le> n" "n \<le> qf * s * (1 + 2 powi (- 53))"
    using qspos by (intro rel_error_bounds; simp)+
  have ndpos: "0 < n / d" using npos dpos by simp
  have "(- 1022::int) \<le> - 53" by simp
  then have "(2::rat) powi (- 1022) \<le> 2 powi (- 53)" by (simp only: powi2_le_iff)
  then have "2 powi (- 1022) \<le> n / d" using ql by (rule order_trans)
  then have "2 powi (- 1022) \<le> \<bar>n / d\<bar>" by (rule order_trans[OF _ abs_ge_self])
  then have "\<bar>r - n / d\<bar> \<le> \<bar>n / d\<bar> * 2 powi (- 53)" unfolding r by (rule round_fin_rel_error)
  then have er: "n / d * (1 - 2 powi (- 53)) \<le> r" "r \<le> n / d * (1 + 2 powi (- 53))"
    using ndpos by (intro rel_error_bounds; simp)+
  have Qpos: "0 < Q" and qfpos: "0 < qf" using Q1 qf1 by simp_all
  have "\<bar>Q * (a - t) - r * (t - b)\<bar> \<le> 6 * 2 powi (- 53) * (Q * (a - t))"
    using refl refl Qpos xpos rpos dpos npos qfpos spos eq es en ed er by (rule five_roundings)
  then show "\<bar>of_int q1 * (a - t) - r * (t - b)\<bar> \<le> 6 * 2 powi (- 53) * (of_int q1 * (a - t))"
    by (simp only: Q_def)
qed

lemma average_cost_bound:
  assumes "is_double a" "is_double b" "is_double t"
    and "0 < q1" "0 < b" "b < t" "t < a"
    and "calculate_shares_to_buy q1 (Fin a) (Fin b) (Fin t) = Some (Fin r)"
  shows "0 < r \<and>
    \<bar>(of_int q1 * a + r * b) / (of_int q1 + r) - t\<bar> \<le> 6 * 2 powi (- 53) * (a - t)"
proof -
  from assms(8) obtain f where f: "int_to_float q1 = Inr f"
    and q: "fdiv (fmul f (fsub (Fin a) (Fin t))) (fsub (Fin t) (Fin b)) = Inr (Fin r)"
    by (auto simp: calculate_shares_to_buy_def shares_formula_def shares_numerator_def
        shares_denominator_def int_mul_float_def split: if_splits sum.splits)
  have fq: "f = Fin (round_fin (of_int q1))" using f by (rule int_to_float_InrD)
  have q1: "1 \<le> q1" using assms(4) by simp
  note e = shares_formula_error[OF assms(1-3) q1 assms(5-7) q[unfolded fq]]
  define Q :: rat where "Q = of_int q1"
  have Qpos: "0 < Q" using assms(4) by (simp add: Q_def)
  have rpos: "0 < r" by (rule e(1))
  have S: "0 < Q + r" using Qpos rpos by simp
  have x: "0 < a - t" using assms(7) by simp
  have "(Q * a + r * b) / (Q + r) - t = (Q * (a - t) - r * (t - b)) / (Q + r)"
    using S by (simp add: field_simps)
  then have "\<bar>(Q * a + r * b) / (Q + r) - t\<bar> = \<bar>Q * (a - t) - r * (t - b)\<bar> / (Q + r)"
    using S by (simp add: abs_divide)
  also have "\<dots> \<le> 6 * 2 powi (- 53) * (Q * (a - t)) / (Q + r)"
    using e(2) S unfolding Q_def[symmetric] by (intro divide_right_mono) auto
  also have "\<dots> = 6 * 2 powi (- 53) * (a - t) * (Q / (Q + r))" by simp
  also have "\<dots> \<le> 6 * 2 powi (- 53) * (a - t) * 1"
  proof (rule mult_left_mono)
    show "Q / (Q + r) \<le> 1" using S rpos by (simp add: field_simps)
    show "0 \<le> 6 * 2 powi (- 53) * (a - t)" using x by simp
  qed
  finally have "\<bar>(Q * a + r * b) / (Q + r) - t\<bar> \<le> 6 * 2 powi (- 53) * (a - t)" by simp
  then show ?thesis using rpos by (simp add: Q_def)
qed


text \<open>
  Claim C3. For \<open>q1 > 0\<close> and finite prices \<open>0 < p2 < p_target < p1\<close>, a float is returned
  when \<open>q1 < 2 ^ 1024 - 2 ^ 970\<close>, and every float \<open>q2\<close> returned is \<open>+inf\<close> or a finite positive
  float for which the average cost \<open>(q1 * p1 + q2 * p2) / (q1 + q2)\<close>, taken exactly,
  differs from \<open>p_target\<close> by at most \<open>6 * 2 ^ -53 * (p1 - p_target)\<close>.
\<close>

theorem average_cost_near_target:
  assumes "is_double a" "is_double b" "is_double t"
    and "0 < q1" "0 < b" "b < t" "t < a"
  shows "(q1 < 2 ^ 1024 - 2 ^ 970 \<longrightarrow>
            (\<exists>q2. calculate_shares_to_buy q1 (Fin a) (Fin b) (Fin t) = Some q2)) \<and>
         (\<forall>q2. calculate_shares_to_buy q1 (Fin a) (Fin b) (Fin t) = Some q2 \<longrightarrow>
            q2 = PInf \<or>
            (\<exists>r. q2 = Fin r \<and> 0 < r \<and>
               \<bar>(of_int q1 * a + r * b) / (of_int q1 + r) - t\<bar>
                 \<le> 6 * 2 powi (- 53) * (a - t)))"
proof (intro conjI allI impI)
  assume "q1 < 2 ^ 1024 - 2 ^ 970"
  then have c: "int_to_float q1 = Inr (Fin (round_fin (of_int q1)))"
    using assms(4) by (intro int_to_float_Inr) simp
  have g1: "\<not> fle (Fin t) (Fin b)" and g2: "\<not> fge (Fin t) (Fin a)"
    using assms(6,7) by (simp_all add: fge_def)
  have v: "valid_float (Fin b)" "valid_float (Fin t)" using assms(2,3) by simp_all
  obtain q2 where "shares_formula q1 (Fin a) (Fin b) (Fin t) = Inr q2"
    using shares_formula_Inr[OF v g1 c] by blast
  then show "\<exists>q2. calculate_shares_to_buy q1 (Fin a) (Fin b) (Fin t) = Some q2"
    using g1 g2 by (simp add: calculate_shares_to_buy_def)
next
  fix q2
  assume r: "calculate_shares_to_buy q1 (Fin a) (Fin b) (Fin t) = Some q2"
  show "q2 = PInf \<or>
    (\<exists>r. q2 = Fin r \<and> 0 < r \<and>
       \<bar>(of_int q1 * a + r * b) / (of_int q1 + r) - t\<bar> \<le> 6 * 2 powi (- 53) * (a - t))"
  proof (cases q2)
    case (Fin x)
    then show ?thesis using average_cost_bound[OF assms r[unfolded Fin]] by simp
  next
    case PInf
    then show ?thesis by simp
  next
    case NInf
    have "fgt q2 (Fin 0)"
    proof -
      from r obtain f where f: "int_to_float q1 = Inr f"
        and q: "fdiv (fmul f (fsub (Fin a) (Fin t))) (fsub (Fin t) (Fin b)) = Inr q2"
        by (auto simp: calculate_shares_to_buy_def shares_formula_def shares_numerator_def
            shares_denominator_def int_mul_float_def split: if_splits sum.splits)
      have fq: "f = Fin (round_fin (of_int q1))" using f by (rule int_to_float_InrD)
      have q1: "1 \<le> round_fin (of_int q1)" using assms(4) by (intro round_fin_int_ge_1) simp
      have "q2 = PInf \<or> (\<exists>r. q2 = Fin r \<and> 2 powi (- 53) \<le> r)"
        using assms(2,3,5,6) q1 q assms(1,7) unfolding fq
        by (intro shares_quotient_positive[of b t "Fin a" "round_fin (of_int q1)" q2]) simp_all
      then show ?thesis using NInf by simp
    qed
    then show ?thesis using NInf by (simp add: fgt_def)
  next
    case NaN
    have "q2 = PInf \<or> (\<exists>r. q2 = Fin r \<and> 2 powi (- 53) \<le> r)"
    proof -
      from r obtain f where f: "int_to_float q1 = Inr f"
        and q: "fdiv (fmul f (fsub (Fin a) (Fin t))) (fsub (Fin t) (Fin b)) = Inr q2"
        by (auto simp: calculate_shares_to_buy_def shares_formula_def shares_numerator_def
            shares_denominator_def int_mul_float_def split: if_splits sum.splits)
      have fq: "f = Fin (round_fin (of_int q1))" using f by (rule int_to_float_InrD)
      have q1: "1 \<le> round_fin (of_int q1)" using assms(4) by (intro round_fin_int_ge_1) simp
      show ?thesis
        using assms(2,3,5,6) q1 q assms(1,7) unfolding fq
        by (intro shares_quotient_positive[of b t "Fin a" "round_fin (of_int q1)" q2]) simp_all
    qed
    then show ?thesis using NaN by simp
  qed
qed

text \<open>
  One share at 3, now at 1, with the target 2.5: the average cost after buying the returned
  number of shares, exactly and in float arithmetic.
\<close>

lemma is_double_third: "is_double (6004799503160661 / 18014398509481984)"
  using is_double_scaled_int[of 6004799503160661 "- 54"] by simp

lemma third_total_cost:
  "fadd (Fin 3) (Fin (6004799503160661 / 18014398509481984)) =
     Fin (7505999378950827 / 2251799813685248)"
proof -
  have "round_fin (3 + (6004799503160661 / 18014398509481984)) =
      of_int 7505999378950827 * 2 powi (- 51)"
    by (rule round_fin_eqI) simp_all
  then show ?thesis unfolding fadd.simps by (intro round_double_eqI) simp_all
qed

lemma third_total_quantity:
  "fadd (Fin 1) (Fin (6004799503160661 / 18014398509481984)) =
     Fin (6004799503160661 / 4503599627370496)"
proof -
  have "round_fin (1 + (6004799503160661 / 18014398509481984)) =
      of_int 6004799503160661 * 2 powi (- 52)"
    by (rule round_fin_eqI) simp_all
  then show ?thesis unfolding fadd.simps by (intro round_double_eqI) simp_all
qed

lemma third_average:
  "fdiv (Fin (7505999378950827 / 2251799813685248)) (Fin (6004799503160661 / 4503599627370496)) =
     Inr (Fin (5629499534213121 / 2251799813685248))"
proof -
  have "round_fin ((7505999378950827 / 2251799813685248) / (6004799503160661 / 4503599627370496)) =
      of_int 5629499534213121 * 2 powi (- 51)"
    by (rule round_fin_eqI) simp_all
  then have "round_double
      ((7505999378950827 / 2251799813685248) / (6004799503160661 / 4503599627370496)) =
      Fin (5629499534213121 / 2251799813685248)"
    by (intro round_double_eqI) simp_all
  then show ?thesis by simp
qed

lemma third_float_average:
  "fdiv (fadd (fmul (Fin 1) (Fin 3)) (fmul (Fin (6004799503160661 / 18014398509481984)) (Fin 1)))
        (fadd (Fin 1) (Fin (6004799503160661 / 18014398509481984))) =
     Inr (Fin (5629499534213121 / 2251799813685248))"
proof -
  have 1: "fmul (Fin 1) (Fin 3) = Fin 3" by (simp add: round_double_numeral)
  have 2: "fmul (Fin (6004799503160661 / 18014398509481984)) (Fin 1) =
      Fin (6004799503160661 / 18014398509481984)"
    using round_double_exact[OF is_double_third] by simp
  show ?thesis unfolding 1 2 third_total_cost third_total_quantity by (rule third_average)
qed

theorem average_cost_near_target_witness:
  "is_double 3 \<and> is_double 1 \<and> is_double (5 / 2) \<and> (0::int) < 1 \<and>
   (0::rat) < 1 \<and> (1::rat) < 5 / 2 \<and> (5 / 2 :: rat) < 3 \<and>
   calculate_shares_to_buy 1 (Fin 3) (Fin 1) (Fin (5 / 2)) =
     Some (Fin (6004799503160661 / 18014398509481984)) \<and>
   (0::rat) < 6004799503160661 / 18014398509481984 \<and>
   \<bar>(of_int 1 * 3 + 6004799503160661 / 18014398509481984 * 1) /
      (of_int 1 + 6004799503160661 / 18014398509481984) - 5 / 2 :: rat\<bar>
     \<le> 6 * 2 powi (- 53) * (3 - 5 / 2) \<and>
   is_double 100 \<and> is_double 60 \<and> is_double 80 \<and> (0::int) < 10 \<and>
   (0::rat) < 60 \<and> (60::rat) < 80 \<and> (80::rat) < 100 \<and>
   calculate_shares_to_buy 10 (Fin 100) (Fin 60) (Fin 80) = Some (Fin 10) \<and>
   \<bar>(of_int 10 * 100 + 10 * 60) / (of_int 10 + 10) - 80 :: rat\<bar>
     \<le> 6 * 2 powi (- 53) * (100 - 80)"
proof -
  have v: "is_double 3" "is_double 1" "is_double (5 / 2)"
    using is_double_int[of 1] by (simp_all add: is_double_numeral is_double_5_2)
  have o: "(0::int) < 1" "(0::rat) < 1" "(1::rat) < 5 / 2" "(5 / 2 :: rat) < 3" by simp_all
  note t = average_cost_near_target[OF v(1,2,3) o, THEN conjunct2, rule_format,
      OF third_example]
  have w: "is_double 100" "is_double 60" "is_double 80" by (simp_all add: is_double_numeral)
  have u: "(0::int) < 10" "(0::rat) < 60" "(60::rat) < 80" "(80::rat) < 100" by simp_all
  note t' = average_cost_near_target[OF w u, THEN conjunct2, rule_format,
      OF scenario_break_even]
  show ?thesis using v o third_example t w u scenario_break_even t' by simp
qed

theorem average_cost_near_target_counterexample:
  "(0::int) < 1 \<and> fgt (Fin 3) (Fin 0) \<and> fgt (Fin 1) (Fin 0) \<and>
   flt (Fin 1) (Fin (5 / 2)) \<and> flt (Fin (5 / 2)) (Fin 3) \<and>
   calculate_shares_to_buy 1 (Fin 3) (Fin 1) (Fin (5 / 2)) =
     Some (Fin (6004799503160661 / 18014398509481984)) \<and>
   (1 * 3 + 6004799503160661 / 18014398509481984 * 1) /
     (1 + 6004799503160661 / 18014398509481984) \<noteq> (5 / 2 :: rat) \<and>
   fdiv (fadd (fmul (Fin 1) (Fin 3)) (fmul (Fin (6004799503160661 / 18014398509481984)) (Fin 1)))
        (fadd (Fin 1) (Fin (6004799503160661 / 18014398509481984))) =
     Inr (Fin (5629499534213121 / 2251799813685248)) \<and>
   Fin (5629499534213121 / 2251799813685248) \<noteq> Fin (5 / 2)"
proof -
  have "(1 * 3 + 6004799503160661 / 18014398509481984 * 1) /
     (1 + 6004799503160661 / 18014398509481984) \<noteq> (5 / 2 :: rat)" by simp
  moreover have "Fin (5629499534213121 / 2251799813685248) \<noteq> Fin (5 / 2)" by simp
  moreover have "fgt (Fin 3) (Fin 0)" "fgt (Fin 1) (Fin 0)"
    "flt (Fin 1) (Fin (5 / 2))" "flt (Fin (5 / 2)) (Fin 3)"
    by (simp_all add: fgt_def)
  moreover have "(0::int) < 1" by simp
  ultimately show ?thesis using third_example third_float_average by blast
qed

end
